theory Spec2Isabelle
  imports Complex_Main "HOL-Library.Sublist" "HOL-Library.Code_Target_Nat"
begin

section \<open>Strings of the source language\<close>

text \<open>
  A JavaScript string is a sequence of UTF-16 code units. A code unit is modelled as a
  natural number (below \<open>0x10000\<close> in every string the program can hold), a string as
  the list of its code units. ASCII literals of the source are written \<open>str ''...''\<close>.
\<close>

type_synonym jstring = "nat list"

definition str :: "string \<Rightarrow> jstring" where
  "str s = map of_char s"

text \<open>
  \<open>String.prototype.trim\<close> removes the code units of the ECMAScript productions
  WhiteSpace and LineTerminator from both ends.
\<close>

definition isWhiteSpace :: "nat \<Rightarrow> bool" where
  "isWhiteSpace c \<longleftrightarrow>
     c = 0x9 \<or> c = 0xA \<or> c = 0xB \<or> c = 0xC \<or> c = 0xD \<or> c = 0x20 \<or> c = 0xA0 \<or>
     c = 0x1680 \<or> (0x2000 \<le> c \<and> c \<le> 0x200A) \<or> c = 0x2028 \<or> c = 0x2029 \<or>
     c = 0x202F \<or> c = 0x205F \<or> c = 0x3000 \<or> c = 0xFEFF"

definition trim :: "jstring \<Rightarrow> jstring" where
  "trim s = rev (dropWhile isWhiteSpace (rev (dropWhile isWhiteSpace s)))"

text \<open>\<open>s.includes(p)\<close>: \<open>p\<close> occurs in \<open>s\<close> as a contiguous substring.\<close>

fun str_includes :: "jstring \<Rightarrow> jstring \<Rightarrow> bool" where
  "str_includes [] p = (p = [])"
| "str_includes (c # s) p = (prefix p (c # s) \<or> str_includes s p)"

text \<open>\<open>s.startsWith(p)\<close>.\<close>

definition startsWith :: "jstring \<Rightarrow> jstring \<Rightarrow> bool" where
  "startsWith s p = prefix p s"

text \<open>
  \<open>s.indexOf(c)\<close> for a single code unit \<open>c\<close>; the source calls it only after
  \<open>includes\<close> has answered true, so the not-found result \<open>-1\<close> never arises.
\<close>

definition indexOf :: "jstring \<Rightarrow> nat \<Rightarrow> nat" where
  "indexOf s c = length (takeWhile (\<lambda>x. x \<noteq> c) s)"

text \<open>\<open>s.substring(a, b)\<close> with \<open>a \<le> b\<close>, and \<open>s.substring(a)\<close>.\<close>

definition substring :: "jstring \<Rightarrow> nat \<Rightarrow> nat \<Rightarrow> jstring" where
  "substring s a b = take (b - a) (drop a s)"

definition substring_from :: "jstring \<Rightarrow> nat \<Rightarrow> jstring" where
  "substring_from s a = drop a s"

text \<open>
  \<open>String.prototype.toLowerCase\<close>. Every use in the source compares the result with
  ASCII text, so the model is exact on each code unit whose lower-case form contains an
  ASCII character: the letters \<open>A\<close> to \<open>Z\<close>, U+0130 (which becomes \<open>i\<close> followed by
  U+0307) and U+212A (the Kelvin sign, which becomes \<open>k\<close>). Any other code unit has a
  lower-case form without ASCII characters and is kept as it is, which changes no
  comparison with ASCII text.
\<close>

definition lower_unit :: "nat \<Rightarrow> jstring" where
  "lower_unit c =
     (if 0x41 \<le> c \<and> c \<le> 0x5A then [c + 0x20]
      else if c = 0x130 then [0x69, 0x307]
      else if c = 0x212A then [0x6B]
      else [c])"

definition toLowerCase :: "jstring \<Rightarrow> jstring" where
  "toLowerCase s = concat (map lower_unit s)"

section \<open>The query-string codec: \<open>URLSearchParams\<close>\<close>

text \<open>
  \<open>URLSearchParams\<close> is the platform's implementation of the
  \<open>application/x-www-form-urlencoded\<close> format of the URL standard. Its strings are
  converted to scalar-value strings first (an unpaired surrogate becomes U+FFFD), encoded
  in UTF-8 and percent-encoded; parsing percent-decodes and decodes UTF-8 with the
  replacement of malformed sequences by U+FFFD.
\<close>

subsection \<open>UTF-16 and UTF-8\<close>

definition is_high :: "nat \<Rightarrow> bool" where
  "is_high c \<longleftrightarrow> 0xD800 \<le> c \<and> c \<le> 0xDBFF"

definition is_low :: "nat \<Rightarrow> bool" where
  "is_low c \<longleftrightarrow> 0xDC00 \<le> c \<and> c \<le> 0xDFFF"

definition is_surrogate :: "nat \<Rightarrow> bool" where
  "is_surrogate c \<longleftrightarrow> 0xD800 \<le> c \<and> c \<le> 0xDFFF"

text \<open>Code units to scalar values; an unpaired surrogate becomes U+FFFD.\<close>

fun utf16_decode :: "jstring \<Rightarrow> nat list" where
  "utf16_decode [] = []"
| "utf16_decode [c] = [if is_surrogate c then 0xFFFD else c]"
| "utf16_decode (c # d # r) =
     (if is_high c \<and> is_low d
      then (0x10000 + (c - 0xD800) * 0x400 + (d - 0xDC00)) # utf16_decode r
      else (if is_surrogate c then 0xFFFD else c) # utf16_decode (d # r))"

definition utf16_units :: "nat \<Rightarrow> jstring" where
  "utf16_units cp =
     (if 0x10000 \<le> cp
      then [0xD800 + (cp - 0x10000) div 0x400, 0xDC00 + (cp - 0x10000) mod 0x400]
      else [cp])"

definition utf16_encode :: "nat list \<Rightarrow> jstring" where
  "utf16_encode cps = concat (map utf16_units cps)"

text \<open>The conversion of a string to a scalar-value string (WebIDL \<open>USVString\<close>).\<close>

definition toUSV :: "jstring \<Rightarrow> jstring" where
  "toUSV s = utf16_encode (utf16_decode s)"

definition utf8_bytes :: "nat \<Rightarrow> nat list" where
  "utf8_bytes cp =
     (if cp < 0x80 then [cp]
      else if cp < 0x800 then [0xC0 + cp div 0x40, 0x80 + cp mod 0x40]
      else if cp < 0x10000
        then [0xE0 + cp div 0x1000, 0x80 + (cp div 0x40) mod 0x40, 0x80 + cp mod 0x40]
      else [0xF0 + cp div 0x40000, 0x80 + (cp div 0x1000) mod 0x40,
            0x80 + (cp div 0x40) mod 0x40, 0x80 + cp mod 0x40])"

definition utf8_encode :: "nat list \<Rightarrow> nat list" where
  "utf8_encode cps = concat (map utf8_bytes cps)"

text \<open>
  The UTF-8 decoder of the Encoding standard, as a state machine over the bytes: the code
  point under construction, the number of continuation bytes still needed, and the bounds
  for the next byte. A byte that cannot continue a sequence ends it with U+FFFD and is
  read again as the start of a new sequence.
\<close>

fun utf8_dec :: "nat \<Rightarrow> nat \<Rightarrow> nat \<Rightarrow> nat \<Rightarrow> nat list \<Rightarrow> nat list" where
  "utf8_dec cp need lo hi [] = (if need \<noteq> 0 then [0xFFFD] else [])"
| "utf8_dec cp need lo hi (b # bs) =
     (if need = 0 then
        (if b \<le> 0x7F then b # utf8_dec 0 0 0x80 0xBF bs
         else if 0xC2 \<le> b \<and> b \<le> 0xDF then utf8_dec (b mod 0x20) 1 0x80 0xBF bs
         else if 0xE0 \<le> b \<and> b \<le> 0xEF
           then utf8_dec (b mod 0x10) 2 (if b = 0xE0 then 0xA0 else 0x80)
                  (if b = 0xED then 0x9F else 0xBF) bs
         else if 0xF0 \<le> b \<and> b \<le> 0xF4
           then utf8_dec (b mod 0x8) 3 (if b = 0xF0 then 0x90 else 0x80)
                  (if b = 0xF4 then 0x8F else 0xBF) bs
         else 0xFFFD # utf8_dec 0 0 0x80 0xBF bs)
      else if b < lo \<or> hi < b then 0xFFFD # utf8_dec 0 0 0x80 0xBF (b # bs)
      else if need = 1 then (cp * 0x40 + b mod 0x40) # utf8_dec 0 0 0x80 0xBF bs
      else utf8_dec (cp * 0x40 + b mod 0x40) (need - 1) 0x80 0xBF bs)"

definition utf8_decode :: "nat list \<Rightarrow> nat list" where
  "utf8_decode bs = utf8_dec 0 0 0x80 0xBF bs"

subsection \<open>Percent-encoding\<close>

definition hex_digit :: "nat \<Rightarrow> nat" where
  "hex_digit d = (if d < 10 then 0x30 + d else 0x37 + d)"

definition is_hex :: "nat \<Rightarrow> bool" where
  "is_hex c \<longleftrightarrow> (0x30 \<le> c \<and> c \<le> 0x39) \<or> (0x41 \<le> c \<and> c \<le> 0x46) \<or> (0x61 \<le> c \<and> c \<le> 0x66)"

definition hex_value :: "nat \<Rightarrow> nat" where
  "hex_value c = (if c \<le> 0x39 then c - 0x30 else if c \<le> 0x46 then c - 0x37 else c - 0x57)"

text \<open>
  The bytes the serializer leaves as they are: ASCII letters and digits, \<open>*\<close>, \<open>-\<close>,
  \<open>.\<close> and \<open>_\<close>. A space becomes \<open>+\<close>; every other byte becomes \<open>%XX\<close> with
  upper-case hexadecimal digits.
\<close>

definition urlencoded_safe :: "nat \<Rightarrow> bool" where
  "urlencoded_safe b \<longleftrightarrow>
     b = 0x2A \<or> b = 0x2D \<or> b = 0x2E \<or> (0x30 \<le> b \<and> b \<le> 0x39) \<or>
     (0x41 \<le> b \<and> b \<le> 0x5A) \<or> b = 0x5F \<or> (0x61 \<le> b \<and> b \<le> 0x7A)"

definition urlencoded_byte :: "nat \<Rightarrow> jstring" where
  "urlencoded_byte b =
     (if b = 0x20 then [0x2B]
      else if urlencoded_safe b then [b]
      else [0x25, hex_digit (b div 0x10), hex_digit (b mod 0x10)])"

definition urlencoded_string :: "jstring \<Rightarrow> jstring" where
  "urlencoded_string s = concat (map urlencoded_byte (utf8_encode (utf16_decode s)))"

fun percent_decode :: "nat list \<Rightarrow> nat list" where
  "percent_decode [] = []"
| "percent_decode (b # bs) =
     (if b = 0x25 then
        (case bs of
           h1 # h2 # rest \<Rightarrow>
             if is_hex h1 \<and> is_hex h2
             then (hex_value h1 * 0x10 + hex_value h2) # percent_decode rest
             else b # percent_decode bs
         | _ \<Rightarrow> b # percent_decode bs)
      else b # percent_decode bs)"

subsection \<open>Parsing and serializing\<close>

text \<open>Splitting a byte sequence at every occurrence of a separator byte.\<close>

fun split_on :: "nat \<Rightarrow> nat list \<Rightarrow> nat list list" where
  "split_on c [] = [[]]"
| "split_on c (x # xs) =
     (if x = c then [] # split_on c xs
      else (case split_on c xs of
              y # ys \<Rightarrow> (x # y) # ys
            | [] \<Rightarrow> [[x]]))"

definition plus_to_space :: "nat list \<Rightarrow> nat list" where
  "plus_to_space bs = map (\<lambda>b. if b = 0x2B then 0x20 else b) bs"

definition decode_component :: "nat list \<Rightarrow> jstring" where
  "decode_component bs = utf16_encode (utf8_decode (percent_decode (plus_to_space bs)))"

text \<open>
  One non-empty sequence between two \<open>&\<close>: the name is what precedes the first \<open>=\<close>,
  the value what follows it; without \<open>=\<close> the whole sequence is the name.
\<close>

definition parse_pair :: "nat list \<Rightarrow> jstring \<times> jstring" where
  "parse_pair bs =
     (if 0x3D \<in> set bs
      then (decode_component (takeWhile (\<lambda>b. b \<noteq> 0x3D) bs),
            decode_component (tl (dropWhile (\<lambda>b. b \<noteq> 0x3D) bs)))
      else (decode_component bs, []))"

definition urlencoded_parse :: "nat list \<Rightarrow> (jstring \<times> jstring) list" where
  "urlencoded_parse bs = map parse_pair (filter (\<lambda>s. s \<noteq> []) (split_on 0x26 bs))"

text \<open>
  \<open>new URLSearchParams(init)\<close> for a string: a leading \<open>?\<close> is removed, the rest is
  encoded in UTF-8 and parsed. The object is modelled by its list of name-value pairs.
  The constructor does not throw on any string.
\<close>

definition usp_parse :: "jstring \<Rightarrow> (jstring \<times> jstring) list" where
  "usp_parse init =
     urlencoded_parse (utf8_encode (utf16_decode
       (case init of c # r \<Rightarrow> if c = 0x3F then r else init | [] \<Rightarrow> [])))"

text \<open>
  \<open>params.set(name, value)\<close>: the first pair named \<open>name\<close> takes the value and the
  other pairs of that name are removed; without such a pair a new one is appended.
\<close>

fun set_first :: "(jstring \<times> jstring) list \<Rightarrow> jstring \<Rightarrow> jstring \<Rightarrow> (jstring \<times> jstring) list" where
  "set_first [] n v = []"
| "set_first (p # ps) n v =
     (if fst p = n then (n, v) # filter (\<lambda>q. fst q \<noteq> n) ps else p # set_first ps n v)"

definition usp_set :: "(jstring \<times> jstring) list \<Rightarrow> jstring \<Rightarrow> jstring \<Rightarrow> (jstring \<times> jstring) list" where
  "usp_set ps name val =
     (let n = toUSV name; v = toUSV val
      in if n \<in> fst ` set ps then set_first ps n v else ps @ [(n, v)])"

text \<open>\<open>params.toString()\<close>: the pairs as \<open>name=value\<close>, joined by \<open>&\<close>.\<close>

fun usp_toString :: "(jstring \<times> jstring) list \<Rightarrow> jstring" where
  "usp_toString [] = []"
| "usp_toString [p] = urlencoded_string (fst p) @ 0x3D # urlencoded_string (snd p)"
| "usp_toString (p # q # ps) =
     urlencoded_string (fst p) @ 0x3D # urlencoded_string (snd p) @ 0x26 # usp_toString (q # ps)"

section \<open>The URL splitter and merger\<close>

record split_result =
  cleanUrl :: jstring
  params :: "jstring \<rightharpoonup> jstring"

text \<open>
  \<open>const [urlWithoutFragment] = trimmedUrl.split('#')\<close>: the text before the first
  \<open>#\<close>.
\<close>

definition urlWithoutFragment :: "jstring \<Rightarrow> jstring" where
  "urlWithoutFragment trimmedUrl = takeWhile (\<lambda>c. c \<noteq> 0x23) trimmedUrl"

text \<open>
  The first half of \<open>splitUrl\<close>, from the trimmed string to the values of the variables
  \<open>cleanUrl\<close> and \<open>searchPart\<close> before the parameters are extracted. The argument
  of \<open>splitUrl\<close> is a string, so the test \<open>typeof urlStr !== 'string'\<close> is false, and
  \<open>!urlStr\<close> holds for the empty string only.
\<close>

definition locateQuery :: "jstring \<Rightarrow> jstring \<times> jstring" where
  "locateQuery trimmedUrl =
     (let u = urlWithoutFragment trimmedUrl in
      if str_includes u (str ''?'') then
        (let queryIndex = indexOf u 0x3F
         in (substring u 0 queryIndex, substring_from u (queryIndex + 1)))
      else
        (let hasEquals = str_includes u (str ''='');
             hasStructure = (str_includes u (str ''.'') \<or> str_includes u (str ''/''));
             isExplicitUtm = str_includes (toLowerCase u) (str ''utm_'')
         in if hasEquals \<and> (\<not> hasStructure \<or> isExplicitUtm) then ([], u)
            else (trimmedUrl, [])))"

text \<open>
  The test of the \<open>else\<close> branch, \<open>hasEquals && (!hasStructure || isExplicitUtm)\<close>,
  as a predicate of the fragment-stripped string.
\<close>

definition nakedQueryTest :: "jstring \<Rightarrow> bool" where
  "nakedQueryTest u \<longleftrightarrow>
     str_includes u (str ''='') \<and>
     (\<not> (str_includes u (str ''.'') \<or> str_includes u (str ''/'')) \<or>
      str_includes (toLowerCase u) (str ''utm_''))"

text \<open>
  The assignment \<open>obj[key] = value\<close> of a string to a property of a plain object,
  the object being modelled by the map of its own properties. The key is stored as an own
  property, except for the key \<open>__proto__\<close>: there the assignment reaches the setter
  that every plain object inherits from \<open>Object.prototype\<close>, which ignores a value
  that is neither an object nor \<open>null\<close>, and the object stays as it was.
\<close>

definition assignProperty ::
  "(jstring \<rightharpoonup> jstring) \<Rightarrow> jstring \<Rightarrow> jstring \<Rightarrow> (jstring \<rightharpoonup> jstring)" where
  "assignProperty obj key val = (if key = str ''__proto__'' then obj else obj(key \<mapsto> val))"

text \<open>
  The second half: the pairs of the parsed query are recorded in order, a pair with an
  empty key is skipped. An empty \<open>searchPart\<close> is not parsed.
\<close>

definition extractParams :: "jstring \<Rightarrow> (jstring \<rightharpoonup> jstring)" where
  "extractParams searchPart =
     (if searchPart \<noteq> []
      then foldl (\<lambda>extractedParams (key, val).
                    if key \<noteq> [] then assignProperty extractedParams key val
                    else extractedParams)
             Map.empty (usp_parse searchPart)
      else Map.empty)"

definition splitUrl :: "jstring \<Rightarrow> split_result" where
  "splitUrl urlStr =
     (if urlStr = [] then \<lparr>cleanUrl = [], params = Map.empty\<rparr>
      else
        (let (c, searchPart) = locateQuery (trim urlStr)
         in \<lparr>cleanUrl = c, params = extractParams searchPart\<rparr>))"

text \<open>
  \<open>mergeUrl\<close>, with \<open>c\<close> for its argument \<open>cleanUrl\<close>; \<open>parameters\<close> is given
  by its entries, in the order of \<open>Object.entries\<close>. No call in the \<open>try\<close> block
  throws on strings, so the \<open>catch\<close> branch is never taken.
\<close>

definition mergeUrl :: "jstring \<Rightarrow> (jstring \<times> jstring) list \<Rightarrow> jstring" where
  "mergeUrl c parameters =
     (if c = [] \<and> parameters = [] then []
      else
        (let ps = foldl (\<lambda>ps (key, val).
                     if val \<noteq> [] \<and> trim val \<noteq> [] then usp_set ps key val else ps)
                   [] parameters;
             queryString = usp_toString ps
         in if c = [] then queryString
            else if queryString \<noteq> []
              then c @ (if str_includes c (str ''?'') then str ''&'' else str ''?'') @ queryString
              else c))"

section \<open>Numbers of the source language\<close>

text \<open>
  A JavaScript number is an IEEE 754 binary64 value. A finite one is modelled by the
  rational it denotes, and each arithmetic operation by the exact operation followed by
  rounding to the nearest value with a 53-bit significand, ties to the even significand.
  \<open>quantum x\<close> is the spacing of such values around \<open>x\<close>: the power of two \<open>q\<close>
  with \<open>2^52 * q \<le> x < 2^53 * q\<close>, where \<open>2^52 = 4503599627370496\<close> and
  \<open>2^53 = 9007199254740992\<close>. The detector only computes with \<open>0\<close> and with
  values between \<open>1/25\<close> and a few hundred, where binary64 neither overflows nor
  loses precision to gradual underflow.
\<close>

type_synonym number = rat

function scale_up :: "rat \<Rightarrow> rat \<Rightarrow> rat" where
  "scale_up x q = (if 0 < q \<and> 9007199254740992 * q \<le> x then scale_up x (2 * q) else q)"
  by pat_completeness auto
termination
proof (relation "measure (\<lambda>(x, q). nat \<lfloor>x / q\<rfloor>)")
  show "wf (measure (\<lambda>(x, q). nat \<lfloor>x / q\<rfloor>))"
    by simp
next
  fix x q :: rat
  assume a: "0 < q \<and> 9007199254740992 * q \<le> x"
  define y where "y = x / (2 * q)"
  have y: "1 \<le> y"
    using a by (simp add: y_def field_simps)
  have e: "x / q = 2 * y"
    using a by (simp add: y_def)
  have "of_int (\<lfloor>y\<rfloor> + 1) \<le> 2 * y"
    using y of_int_floor_le[of y] unfolding of_int_add of_int_1 by linarith
  then have "\<lfloor>y\<rfloor> + 1 \<le> \<lfloor>2 * y\<rfloor>"
    by (simp only: le_floor_iff)
  moreover have "0 \<le> \<lfloor>y\<rfloor>"
    using y by simp
  ultimately have "nat \<lfloor>y\<rfloor> < nat \<lfloor>2 * y\<rfloor>"
    by linarith
  then have "nat \<lfloor>x / (2 * q)\<rfloor> < nat \<lfloor>x / q\<rfloor>"
    unfolding e unfolding y_def .
  then show "((x, 2 * q), (x, q)) \<in> measure (\<lambda>(x, q). nat \<lfloor>x / q\<rfloor>)"
    by simp
qed

function scale_down :: "rat \<Rightarrow> rat \<Rightarrow> rat" where
  "scale_down x q =
     (if 0 < x \<and> 0 < q \<and> x < 4503599627370496 * q then scale_down x (q / 2) else q)"
  by pat_completeness auto
termination
proof (relation "measure (\<lambda>(x, q). nat \<lfloor>9007199254740992 * q / x\<rfloor>)")
  show "wf (measure (\<lambda>(x, q). nat \<lfloor>9007199254740992 * q / x\<rfloor>))"
    by simp
next
  fix x q :: rat
  assume a: "0 < x \<and> 0 < q \<and> x < 4503599627370496 * q"
  define y where "y = 9007199254740992 * (q / 2) / x"
  have y: "1 \<le> y"
    using a by (simp add: y_def field_simps)
  have e: "9007199254740992 * q / x = 2 * y"
    by (simp add: y_def)
  have "of_int (\<lfloor>y\<rfloor> + 1) \<le> 2 * y"
    using y of_int_floor_le[of y] unfolding of_int_add of_int_1 by linarith
  then have "\<lfloor>y\<rfloor> + 1 \<le> \<lfloor>2 * y\<rfloor>"
    by (simp only: le_floor_iff)
  moreover have "0 \<le> \<lfloor>y\<rfloor>"
    using y by simp
  ultimately have "nat \<lfloor>y\<rfloor> < nat \<lfloor>2 * y\<rfloor>"
    by linarith
  then have "nat \<lfloor>9007199254740992 * (q / 2) / x\<rfloor> < nat \<lfloor>9007199254740992 * q / x\<rfloor>"
    unfolding e unfolding y_def .
  then show "((x, q / 2), (x, q)) \<in> measure (\<lambda>(x, q). nat \<lfloor>9007199254740992 * q / x\<rfloor>)"
    by simp
qed

definition quantum :: "rat \<Rightarrow> rat" where
  "quantum x = scale_down x (scale_up x 1)"

definition round_even :: "rat \<Rightarrow> int" where
  "round_even n =
     (let f = \<lfloor>n\<rfloor>; r = n - of_int f
      in if r < 1 / 2 then f
         else if 1 / 2 < r then f + 1
         else if even f then f else f + 1)"

definition rnd :: "rat \<Rightarrow> number" where
  "rnd x =
     (if x = 0 then 0
      else (let q = quantum \<bar>x\<bar> in sgn x * of_int (round_even (\<bar>x\<bar> / q)) * q))"

definition fadd :: "number \<Rightarrow> number \<Rightarrow> number" where
  "fadd a b = rnd (a + b)"

definition fmul :: "number \<Rightarrow> number \<Rightarrow> number" where
  "fmul a b = rnd (a * b)"

definition fdiv :: "number \<Rightarrow> number \<Rightarrow> number" where
  "fdiv a b = rnd (a / b)"

section \<open>The column detector\<close>

text \<open>
  \<open>FileRow\<close> is \<open>Record<string, string>\<close>: a finite map from column names to
  strings. \<open>String(row[h] || '').trim()\<close> reads a missing or empty cell as the empty
  string. (For a header that names a property every plain object inherits, such as
  \<open>constructor\<close>, a row without that column yields the text of the inherited value
  instead; none of these texts contains \<open>=\<close> or starts like a URL, so no counter
  below is raised for it, just as for the empty string.)
\<close>

type_synonym row = "jstring \<rightharpoonup> jstring"

definition cell :: "row \<Rightarrow> jstring \<Rightarrow> jstring" where
  "cell r h = trim (case r h of None \<Rightarrow> [] | Some v \<Rightarrow> v)"

text \<open>
  The regular expressions \<open>/^https?:\/\//i\<close> and \<open>/^www\./i\<close> compare code units
  after canonicalization, which for the ASCII text of these patterns is the upper-casing
  of ASCII letters: a code unit outside ASCII never equals an ASCII one after it.
\<close>

definition canonicalize :: "nat \<Rightarrow> nat" where
  "canonicalize c = (if 0x61 \<le> c \<and> c \<le> 0x7A then c - 0x20 else c)"

definition startsWith_ci :: "jstring \<Rightarrow> jstring \<Rightarrow> bool" where
  "startsWith_ci s p = prefix (map canonicalize p) (map canonicalize s)"

definition isUtmMatch :: "jstring \<Rightarrow> bool" where
  "isUtmMatch v =
     (let lowerVal = toLowerCase v
      in str_includes lowerVal (str ''utm_source='') \<or>
         str_includes lowerVal (str ''utm_medium='') \<or>
         str_includes lowerVal (str ''utm_campaign='') \<or>
         str_includes lowerVal (str ''utm_id=''))"

definition isUrlMatch :: "jstring \<Rightarrow> bool" where
  "isUrlMatch v =
     ((startsWith_ci v (str ''http://'') \<or> startsWith_ci v (str ''https://'')) \<or>
      startsWith_ci v (str ''www.'') \<or> startsWith v (str ''/?''))"

definition isTrackingIdMatch :: "jstring \<Rightarrow> bool" where
  "isTrackingIdMatch v =
     (let lowerVal = toLowerCase v
      in str_includes lowerVal (str ''gclid='') \<or>
         str_includes lowerVal (str ''fbclid='') \<or>
         str_includes lowerVal (str ''msclkid=''))"

definition isQueryStringMatch :: "jstring \<Rightarrow> bool" where
  "isQueryStringMatch v = (str_includes v (str ''?'') \<and> str_includes v (str ''=''))"

definition isAmpersandMatch :: "jstring \<Rightarrow> bool" where
  "isAmpersandMatch v = (str_includes v (str ''&'') \<and> str_includes v (str ''=''))"

record counters =
  utmMatchCount :: nat
  urlMatchCount :: nat
  trackingIdMatchCount :: nat
  queryStringMatchCount :: nat
  ampersandMatchCount :: nat

text \<open>
  The body of \<open>sample.forEach\<close> for the header \<open>h\<close>: a row whose trimmed value is
  empty returns at once, any other row raises each counter whose pattern matches.
\<close>

definition countRow :: "jstring \<Rightarrow> counters \<Rightarrow> row \<Rightarrow> counters" where
  "countRow h cs r =
     (let v = cell r h in
      if v = [] then cs
      else
        (let cs = (if isUtmMatch v then cs\<lparr>utmMatchCount := utmMatchCount cs + 1\<rparr> else cs);
             cs = (if isUrlMatch v then cs\<lparr>urlMatchCount := urlMatchCount cs + 1\<rparr> else cs);
             cs = (if isTrackingIdMatch v
                   then cs\<lparr>trackingIdMatchCount := trackingIdMatchCount cs + 1\<rparr> else cs);
             cs = (if isQueryStringMatch v
                   then cs\<lparr>queryStringMatchCount := queryStringMatchCount cs + 1\<rparr> else cs);
             cs = (if isAmpersandMatch v
                   then cs\<lparr>ampersandMatchCount := ampersandMatchCount cs + 1\<rparr> else cs)
         in cs))"

text \<open>The statement \<open>if (c) score += w\<close>, from the old value of \<open>score\<close> to the new.\<close>

definition addIf :: "bool \<Rightarrow> number \<Rightarrow> number \<Rightarrow> number" where
  "addIf c w score = (if c then fadd score w else score)"

text \<open>The header-name part of the score: seven independent conditions.\<close>

definition nameScore :: "jstring \<Rightarrow> number" where
  "nameScore h =
     (let lowerH = toLowerCase h;
          score = 0;
          score = addIf (lowerH = str ''url'' \<or> lowerH = str ''original_url'' \<or>
                         lowerH = str ''link'') 25 score;
          score = addIf (str_includes lowerH (str ''utm'')) 20 score;
          score = addIf (str_includes lowerH (str ''landing_page'')) 15 score;
          score = addIf (str_includes lowerH (str ''destination'')) 12 score;
          score = addIf (str_includes lowerH (str ''campaign'')) 10 score;
          score = addIf (str_includes lowerH (str ''source'') \<or>
                         str_includes lowerH (str ''medium'')) 8 score;
          score = addIf (lowerH = str ''g'' \<or> lowerH = str ''gclid'' \<or>
                         lowerH = str ''click_id'') 5 score
      in score)"

text \<open>
  The body of \<open>headers.forEach\<close> up to the comparison with \<open>highestScore\<close>: the score
  of the header \<open>h\<close> over the sample.
\<close>

definition columnScore :: "nat \<Rightarrow> row list \<Rightarrow> jstring \<Rightarrow> number" where
  "columnScore sampleSize sample h =
     (let score = nameScore h;
          cs = foldl (countRow h)
                 \<lparr>utmMatchCount = 0, urlMatchCount = 0, trackingIdMatchCount = 0,
                  queryStringMatchCount = 0, ampersandMatchCount = 0\<rparr> sample;
          score = fadd score (fmul (fdiv (of_nat (utmMatchCount cs)) (of_nat sampleSize)) 50);
          score = fadd score (fmul (fdiv (of_nat (urlMatchCount cs)) (of_nat sampleSize)) 30);
          score = fadd score
                    (fmul (fdiv (of_nat (trackingIdMatchCount cs)) (of_nat sampleSize)) 20);
          score = fadd score
                    (fmul (fdiv (of_nat (queryStringMatchCount cs)) (of_nat sampleSize)) 10);
          score = fadd score
                    (fmul (fdiv (of_nat (ampersandMatchCount cs)) (of_nat sampleSize)) 25)
      in score)"

text \<open>The state of the outer loop: \<open>bestCol\<close> and \<open>highestScore\<close>.\<close>

definition trackBest ::
  "nat \<Rightarrow> row list \<Rightarrow> jstring \<times> number \<Rightarrow> jstring \<Rightarrow> jstring \<times> number" where
  "trackBest sampleSize sample st h =
     (let score = columnScore sampleSize sample h
      in if snd st < score then (h, score) else st)"

definition detectBestUrlColumn :: "jstring list \<Rightarrow> row list \<Rightarrow> jstring" where
  "detectBestUrlColumn headers data =
     (if length data = 0 then []
      else
        (let sampleSize = min (length data) 25;
             sample = take sampleSize data;
             (bestCol, highestScore) = foldl (trackBest sampleSize sample) ([], - 1) headers
         in if 5 < highestScore then bestCol else []))"

section \<open>The score as the specification words it\<close>

text \<open>
  For the comparison with \<open>columnScore\<close>: the table of header-name rules (a condition
  on the lower-cased header name and its points), the sum of the points of the rules
  that match, the number of sampled rows whose trimmed value is non-empty and matches a
  content pattern, its rate over the sample size, and the weighted sum. The additions,
  multiplications and divisions are those of the source's numbers, and the sum is taken
  from left to right.
\<close>

definition header_rules :: "((jstring \<Rightarrow> bool) \<times> nat) list" where
  "header_rules =
     [(\<lambda>l. l = str ''url'' \<or> l = str ''original_url'' \<or> l = str ''link'', 25),
      (\<lambda>l. str_includes l (str ''utm''), 20),
      (\<lambda>l. str_includes l (str ''landing_page''), 15),
      (\<lambda>l. str_includes l (str ''destination''), 12),
      (\<lambda>l. str_includes l (str ''campaign''), 10),
      (\<lambda>l. str_includes l (str ''source'') \<or> str_includes l (str ''medium''), 8),
      (\<lambda>l. l = str ''g'' \<or> l = str ''gclid'' \<or> l = str ''click_id'', 5)]"

definition header_bonus :: "jstring \<Rightarrow> nat" where
  "header_bonus h = sum_list (map snd (filter (\<lambda>(c, w). c (toLowerCase h)) header_rules))"

definition matchCount :: "(jstring \<Rightarrow> bool) \<Rightarrow> row list \<Rightarrow> jstring \<Rightarrow> nat" where
  "matchCount P sample h = length (filter (\<lambda>r. cell r h \<noteq> [] \<and> P (cell r h)) sample)"

definition rate :: "nat \<Rightarrow> nat \<Rightarrow> number" where
  "rate c n = fdiv (of_nat c) (of_nat n)"

definition spec_score :: "row list \<Rightarrow> jstring \<Rightarrow> number" where
  "spec_score sample h =
     foldl fadd (of_nat (header_bonus h))
       [fmul (rate (matchCount isUtmMatch sample h) (length sample)) 50,
        fmul (rate (matchCount isUrlMatch sample h) (length sample)) 30,
        fmul (rate (matchCount isTrackingIdMatch sample h) (length sample)) 20,
        fmul (rate (matchCount isQueryStringMatch sample h) (length sample)) 10,
        fmul (rate (matchCount isAmpersandMatch sample h) (length sample)) 25]"

section \<open>Notions used in the statements and proofs about the codec\<close>

text \<open>
  A string of code units without an unpaired surrogate: the strings that the conversion
  to scalar-value strings leaves as they are.
\<close>

definition usv_string :: "jstring \<Rightarrow> bool" where
  "usv_string s \<longleftrightarrow> (\<forall>c\<in>set s. c < 0x10000) \<and> toUSV s = s"

text \<open>A Unicode scalar value.\<close>

definition scalar :: "nat \<Rightarrow> bool" where
  "scalar cp \<longleftrightarrow> cp < 0x110000 \<and> \<not> is_surrogate cp"

text \<open>The code units that a serialized name or value can contain.\<close>

definition encoded_unit :: "nat \<Rightarrow> bool" where
  "encoded_unit c \<longleftrightarrow> c = 0x2B \<or> c = 0x25 \<or> urlencoded_safe c"

text \<open>One serialized pair, \<open>name=value\<close>.\<close>

definition pair_string :: "jstring \<times> jstring \<Rightarrow> jstring" where
  "pair_string p = urlencoded_string (fst p) @ 0x3D # urlencoded_string (snd p)"

section \<open>An example table\<close>

text \<open>
  A row of the specification's example: a column \<open>campaign_url\<close> holding a URL with
  UTM parameters, and a column \<open>name\<close>.
\<close>

definition sample_row :: row where
  "sample_row = [str ''campaign_url'' \<mapsto> str ''https://x.com/?utm_source=a&utm_medium=b'',
                 str ''name'' \<mapsto> str ''bob'']"

section \<open>Basic facts about the string operations\<close>

lemma str_includes_single: "str_includes s [c] \<longleftrightarrow> c \<in> set s"
  by (induction s) auto

lemma str_chars [simp]:
  "str ''?'' = [0x3F]" "str ''='' = [0x3D]" "str ''.'' = [0x2E]" "str ''/'' = [0x2F]"
  "str ''&'' = [0x26]"
  by (simp_all add: str_def)

lemma trim_Nil [simp]: "trim [] = []"
  by (simp add: trim_def)

lemma nakedQueryTest_iff:
  "nakedQueryTest u \<longleftrightarrow>
     0x3D \<in> set u \<and>
     ((0x2E \<notin> set u \<and> 0x2F \<notin> set u) \<or> str_includes (toLowerCase u) (str ''utm_''))"
  by (simp add: nakedQueryTest_def str_includes_single)

lemma substring_indexOf: "substring u 0 (indexOf u c) = takeWhile (\<lambda>x. x \<noteq> c) u"
  unfolding substring_def indexOf_def by (simp add: takeWhile_eq_take[symmetric])

lemma substring_from_indexOf:
  "substring_from u (indexOf u c + 1) = tl (dropWhile (\<lambda>x. x \<noteq> c) u)"
  unfolding substring_from_def indexOf_def by (simp add: dropWhile_eq_drop drop_Suc tl_drop)

lemma split_at_first:
  assumes "u = c @ x # q" and "x \<notin> set c"
  shows "takeWhile (\<lambda>y. y \<noteq> x) u = c" and "tl (dropWhile (\<lambda>y. y \<noteq> x) u) = q"
  using assms by (auto simp: takeWhile_tail dropWhile_append)

section \<open>The splitter\<close>

lemma locateQuery_cases:
  "locateQuery t =
     (let u = urlWithoutFragment t in
      if 0x3F \<in> set u
      then (takeWhile (\<lambda>x. x \<noteq> 0x3F) u, tl (dropWhile (\<lambda>x. x \<noteq> 0x3F) u))
      else if nakedQueryTest u then ([], u) else (t, []))"
  unfolding locateQuery_def Let_def substring_indexOf substring_from_indexOf nakedQueryTest_def
  by (simp only: str_chars str_includes_single)

lemma extractParams_Nil [simp]: "extractParams [] = Map.empty"
  by (simp add: extractParams_def)

lemma urlWithoutFragment_Nil [simp]: "urlWithoutFragment [] = []"
  by (simp add: urlWithoutFragment_def)

lemma urlWithoutFragment_no_hash: "0x23 \<notin> set (urlWithoutFragment t)"
  unfolding urlWithoutFragment_def by (auto dest: set_takeWhileD)

lemma splitUrl_cases:
  "splitUrl s =
     (let u = urlWithoutFragment (trim s) in
      if 0x3F \<in> set u
      then \<lparr>cleanUrl = takeWhile (\<lambda>x. x \<noteq> 0x3F) u,
            params = extractParams (tl (dropWhile (\<lambda>x. x \<noteq> 0x3F) u))\<rparr>
      else if nakedQueryTest u then \<lparr>cleanUrl = [], params = extractParams u\<rparr>
      else \<lparr>cleanUrl = trim s, params = Map.empty\<rparr>)"
proof (cases "s = []")
  case True
  then show ?thesis
    by (simp add: splitUrl_def nakedQueryTest_iff)
next
  case False
  then show ?thesis
    by (simp add: splitUrl_def locateQuery_cases Let_def)
qed

lemma foldl_record:
  "foldl (\<lambda>m (key, val). if key \<noteq> [] then assignProperty m key val else m) m0 ps k =
     (if k \<noteq> [] \<and> k \<noteq> str ''__proto__'' \<and> k \<in> fst ` set ps
      then Some (snd (last (filter (\<lambda>p. fst p = k) ps))) else m0 k)"
proof (induction ps rule: rev_induct)
  case Nil
  then show ?case by simp
next
  case (snoc p ps)
  then show ?case by (cases p) (auto simp: image_iff assignProperty_def)
qed

lemma extractParams_lookup:
  "extractParams q k =
     (if k = [] \<or> k = str ''__proto__'' \<or> k \<notin> fst ` set (usp_parse q) then None
      else Some (snd (last (filter (\<lambda>p. fst p = k) (usp_parse q)))))"
proof (cases "q = []")
  case True
  then show ?thesis
    by (simp add: usp_parse_def urlencoded_parse_def utf8_encode_def)
next
  case False
  then show ?thesis
    unfolding extractParams_def by (simp add: foldl_record)
qed

text \<open>
  C2, as the source has it. Let \<open>u\<close> be the text before the first \<open>#\<close> of the
  trimmed input. Where \<open>u\<close> holds a query (a \<open>?\<close>, or it passes the naked-query
  test), the result has no \<open>#\<close> in \<open>cleanUrl\<close> and is the same for every input with
  that text before the first \<open>#\<close>: the fragment has no influence on it. Where \<open>u\<close>
  holds no query, \<open>cleanUrl\<close> is the whole trimmed input, fragment included, and
  \<open>params\<close> is empty.
\<close>

theorem splitUrl_fragment:
  assumes "u = urlWithoutFragment (trim s)"
  shows "(0x3F \<in> set u \<or> nakedQueryTest u \<longrightarrow>
            0x23 \<notin> set (cleanUrl (splitUrl s)) \<and>
            (\<forall>s'. urlWithoutFragment (trim s') = u \<longrightarrow> splitUrl s' = splitUrl s)) \<and>
         (0x3F \<notin> set u \<and> \<not> nakedQueryTest u \<longrightarrow>
            splitUrl s = \<lparr>cleanUrl = trim s, params = Map.empty\<rparr>)"
proof -
  have "0x23 \<notin> set (takeWhile (\<lambda>x. x \<noteq> 0x3F) (urlWithoutFragment (trim s)))"
    using urlWithoutFragment_no_hash[of "trim s"] by (auto dest: set_takeWhileD)
  then show ?thesis
    unfolding assms by (auto simp: splitUrl_cases Let_def)
qed

theorem splitUrl_fragment_witness:
  "str ''x?a=1'' = urlWithoutFragment (trim (str ''x?a=1#f'')) \<and>
   0x3F \<in> set (str ''x?a=1'') \<and>
   urlWithoutFragment (trim (str ''x?a=1#other'')) = str ''x?a=1'' \<and>
   0x23 \<notin> set (cleanUrl (splitUrl (str ''x?a=1#f''))) \<and>
   splitUrl (str ''x?a=1#other'') = splitUrl (str ''x?a=1#f'')"
proof -
  have a: "str ''x?a=1'' = urlWithoutFragment (trim (str ''x?a=1#f''))"
    by code_simp
  have b: "0x3F \<in> set (str ''x?a=1'')"
    by code_simp
  have c: "urlWithoutFragment (trim (str ''x?a=1#other'')) = str ''x?a=1''"
    by code_simp
  from splitUrl_fragment[OF a] a b c show ?thesis
    by blast
qed

text \<open>
  C2 as stated fails in the no-query case: the fragment of \<open>example.com/path#frag\<close>
  is part of the returned \<open>cleanUrl\<close>.
\<close>

theorem splitUrl_keeps_fragment_without_query:
  "cleanUrl (splitUrl (str ''example.com/path#frag'')) = str ''example.com/path#frag''"
  by code_simp

text \<open>
  C3. Let \<open>u\<close> be the text before the first \<open>#\<close> of a trimmed, non-blank input,
  with no \<open>?\<close> in \<open>u\<close>. Then \<open>u\<close> is taken whole as the raw query, with
  \<open>cleanUrl\<close> empty, exactly when it contains \<open>=\<close> and either contains neither
  \<open>.\<close> nor \<open>/\<close> or contains \<open>utm_\<close> in any letter case; otherwise \<open>cleanUrl\<close>
  is the whole trimmed input and \<open>params\<close> is empty.
\<close>

theorem splitUrl_naked_query:
  assumes "u = urlWithoutFragment (trim s)"
    and "naked = (0x3D \<in> set u \<and>
                  ((0x2E \<notin> set u \<and> 0x2F \<notin> set u) \<or>
                   str_includes (toLowerCase u) (str ''utm_'')))"
    and "trim s \<noteq> []" and "0x3F \<notin> set u"
  shows "(naked \<longrightarrow> splitUrl s = \<lparr>cleanUrl = [], params = extractParams u\<rparr>) \<and>
         (\<not> naked \<longrightarrow> splitUrl s = \<lparr>cleanUrl = trim s, params = Map.empty\<rparr>) \<and>
         (cleanUrl (splitUrl s) = [] \<longleftrightarrow> naked)"
  using assms(3,4) unfolding assms(1,2)
  by (simp add: splitUrl_cases Let_def nakedQueryTest_iff)

theorem splitUrl_naked_query_witness:
  "str ''a.b=1'' = urlWithoutFragment (trim (str ''a.b=1'')) \<and>
   trim (str ''a.b=1'') \<noteq> [] \<and> 0x3F \<notin> set (str ''a.b=1'') \<and>
   splitUrl (str ''a.b=1'') = \<lparr>cleanUrl = trim (str ''a.b=1''), params = Map.empty\<rparr> \<and>
   trim (str ''a.b=1'') = str ''a.b=1''"
proof -
  have u: "str ''a.b=1'' = urlWithoutFragment (trim (str ''a.b=1''))"
    by code_simp
  have n: "False = (0x3D \<in> set (str ''a.b=1'') \<and>
                    ((0x2E \<notin> set (str ''a.b=1'') \<and> 0x2F \<notin> set (str ''a.b=1'')) \<or>
                     str_includes (toLowerCase (str ''a.b=1'')) (str ''utm_'')))"
    by code_simp
  have t: "trim (str ''a.b=1'') \<noteq> []"
    by code_simp
  have q: "0x3F \<notin> set (str ''a.b=1'')"
    by code_simp
  have e: "trim (str ''a.b=1'') = str ''a.b=1''"
    by code_simp
  from splitUrl_naked_query[OF u n t q] u t q e show ?thesis
    by blast
qed

text \<open>
  C4, as the source has it. Let \<open>u\<close> be the text before the first \<open>#\<close> of the
  trimmed input. Where \<open>u\<close> holds no query (no \<open>?\<close>, and the naked-query test
  fails), \<open>params\<close> is empty and \<open>cleanUrl\<close> is the trimmed input. The returned
  \<open>cleanUrl\<close> is empty exactly when \<open>u\<close> was taken whole as a naked query, or
  \<open>u\<close> begins with \<open>?\<close> (the standard form with nothing before the \<open>?\<close>), or the
  input is empty or blank.
\<close>

theorem splitUrl_invariant:
  assumes "u = urlWithoutFragment (trim s)"
  shows "(0x3F \<notin> set u \<and> \<not> nakedQueryTest u \<longrightarrow>
            splitUrl s = \<lparr>cleanUrl = trim s, params = Map.empty\<rparr>) \<and>
         (cleanUrl (splitUrl s) = [] \<longleftrightarrow>
            (0x3F \<notin> set u \<and> nakedQueryTest u) \<or> (\<exists>q. u = 0x3F # q) \<or> trim s = [])"
proof -
  have a: "takeWhile (\<lambda>x. x \<noteq> (0x3F::nat)) v = [] \<longleftrightarrow> (\<exists>q. v = 0x3F # q)"
    if "0x3F \<in> set v" for v
    using that by (cases v) auto
  show ?thesis
    unfolding assms by (auto simp: splitUrl_cases Let_def a)
qed

theorem splitUrl_invariant_witness:
  "str ''example.com/path'' = urlWithoutFragment (trim (str ''example.com/path'')) \<and>
   0x3F \<notin> set (str ''example.com/path'') \<and>
   \<not> nakedQueryTest (str ''example.com/path'') \<and>
   splitUrl (str ''example.com/path'') =
     \<lparr>cleanUrl = trim (str ''example.com/path''), params = Map.empty\<rparr>"
proof -
  have a: "str ''example.com/path'' = urlWithoutFragment (trim (str ''example.com/path''))"
    by code_simp
  have b: "0x3F \<notin> set (str ''example.com/path'')"
    by code_simp
  have c: "\<not> nakedQueryTest (str ''example.com/path'')"
    by code_simp
  from splitUrl_invariant[OF a] a b c show ?thesis
    by blast
qed

text \<open>
  C4 as stated fails for \<open>?x.y=1\<close>: \<open>cleanUrl\<close> is empty, yet the input is not blank
  and was not taken as a naked query (it has a \<open>?\<close>, and it fails the naked-query
  test besides); the standard form found the parameter \<open>x.y\<close>.
\<close>

theorem splitUrl_empty_base_in_standard_form:
  "cleanUrl (splitUrl (str ''?x.y=1'')) = [] \<and>
   params (splitUrl (str ''?x.y=1'')) (str ''x.y'') = Some (str ''1'') \<and>
   0x3F \<in> set (urlWithoutFragment (trim (str ''?x.y=1''))) \<and>
   \<not> nakedQueryTest (urlWithoutFragment (trim (str ''?x.y=1''))) \<and>
   trim (str ''?x.y=1'') \<noteq> []"
  by code_simp

text \<open>
  Query parsing. When the text before the first \<open>#\<close> is \<open>c?q\<close> with no \<open>?\<close> in
  \<open>c\<close>, the split is at that first \<open>?\<close>: \<open>cleanUrl\<close> is \<open>c\<close> and the raw
  query is all of \<open>q\<close>, further \<open>?\<close> included. In the parameters extracted from a raw
  query, a key other than \<open>__proto__\<close> has the value of its last pair, and the empty
  key and the key \<open>__proto__\<close> are absent.
\<close>

theorem splitUrl_query_parsing:
  assumes "urlWithoutFragment (trim s) = c @ 0x3F # q" and "0x3F \<notin> set c"
  shows "splitUrl s = \<lparr>cleanUrl = c, params = extractParams q\<rparr> \<and>
         (\<forall>k. extractParams q k =
            (if k = [] \<or> k = str ''__proto__'' \<or> k \<notin> fst ` set (usp_parse q) then None
             else Some (snd (last (filter (\<lambda>p. fst p = k) (usp_parse q))))))"
proof -
  have "0x3F \<in> set (urlWithoutFragment (trim s))"
    using assms(1) by simp
  then have "splitUrl s = \<lparr>cleanUrl = c, params = extractParams q\<rparr>"
    using split_at_first[OF assms] by (simp add: splitUrl_cases Let_def)
  then show ?thesis
    using extractParams_lookup by blast
qed

theorem splitUrl_query_parsing_witness:
  "urlWithoutFragment (trim (str ''x?a=1&a=2?&=3'')) = str ''x'' @ 0x3F # str ''a=1&a=2?&=3'' \<and>
   0x3F \<notin> set (str ''x'') \<and>
   splitUrl (str ''x?a=1&a=2?&=3'') =
     \<lparr>cleanUrl = str ''x'', params = extractParams (str ''a=1&a=2?&=3'')\<rparr> \<and>
   extractParams (str ''a=1&a=2?&=3'') (str ''a'') = Some (str ''2?'') \<and>
   extractParams (str ''a=1&a=2?&=3'') [] = None"
proof -
  have a: "urlWithoutFragment (trim (str ''x?a=1&a=2?&=3'')) =
           str ''x'' @ 0x3F # str ''a=1&a=2?&=3''"
    by code_simp
  have b: "0x3F \<notin> set (str ''x'')"
    by code_simp
  have p: "(if str ''a'' = [] \<or> str ''a'' = str ''__proto__'' \<or>
               str ''a'' \<notin> fst ` set (usp_parse (str ''a=1&a=2?&=3''))
            then None
            else Some (snd (last (filter (\<lambda>p. fst p = str ''a'')
                                   (usp_parse (str ''a=1&a=2?&=3'')))))) =
           Some (str ''2?'')"
    by code_simp
  from splitUrl_query_parsing[OF a b]
  have r: "splitUrl (str ''x?a=1&a=2?&=3'') =
             \<lparr>cleanUrl = str ''x'', params = extractParams (str ''a=1&a=2?&=3'')\<rparr>"
    and l: "\<And>k. extractParams (str ''a=1&a=2?&=3'') k =
            (if k = [] \<or> k = str ''__proto__'' \<or>
                k \<notin> fst ` set (usp_parse (str ''a=1&a=2?&=3'')) then None
             else Some (snd (last (filter (\<lambda>p. fst p = k) (usp_parse (str ''a=1&a=2?&=3''))))))"
    by blast+
  have "extractParams (str ''a=1&a=2?&=3'') (str ''a'') = Some (str ''2?'')"
    using l[of "str ''a''"] p by (rule trans)
  moreover have "extractParams (str ''a=1&a=2?&=3'') [] = None"
    using l[of "[]"] by simp
  ultimately show ?thesis
    using a b r by blast
qed

text \<open>
  C9 fails on the source for the key \<open>__proto__\<close>. The query of
  \<open>x?__proto__=1&__proto__=2\<close> is split off at the first \<open>?\<close> and parsed into two
  pairs with that key, but the returned parameters hold no value for it: the claim has it
  end up with the value of its last pair, \<open>2\<close>.
\<close>

theorem splitUrl_loses_proto_key:
  "cleanUrl (splitUrl (str ''x?__proto__=1&__proto__=2'')) = str ''x'' \<and>
   usp_parse (str ''__proto__=1&__proto__=2'') =
     [(str ''__proto__'', str ''1''), (str ''__proto__'', str ''2'')] \<and>
   params (splitUrl (str ''x?__proto__=1&__proto__=2'')) (str ''__proto__'') = None"
  by code_simp

section \<open>The codec: parsing what was serialized\<close>

subsection \<open>UTF-8 decoding inverts UTF-8 encoding on scalar values\<close>

lemma utf16_decode_scalar:
  "\<forall>c\<in>set s. c < 0x10000 \<Longrightarrow> \<forall>cp\<in>set (utf16_decode s). scalar cp"
proof (induction s rule: utf16_decode.induct)
  case 1
  then show ?case by simp
next
  case (2 c)
  then show ?case by (simp add: scalar_def is_surrogate_def)
next
  case (3 c d r)
  show ?case
  proof (cases "is_high c \<and> is_low d")
    case True
    then have "0xD800 \<le> c" "c \<le> 0xDBFF" "0xDC00 \<le> d" "d \<le> 0xDFFF"
      by (simp_all add: is_high_def is_low_def)
    then have "0x10000 + (c - 0xD800) * 0x400 + (d - 0xDC00) < 0x110000"
      "0xDFFF < 0x10000 + (c - 0xD800) * 0x400 + (d - 0xDC00)"
      by linarith+
    then have "scalar (0x10000 + (c - 0xD800) * 0x400 + (d - 0xDC00))"
      by (simp add: scalar_def is_surrogate_def)
    moreover have "\<forall>cp\<in>set (utf16_decode r). scalar cp"
      using "3.IH"(1)[OF True] "3.prems" by simp
    moreover have "utf16_decode (c # d # r) =
                   (0x10000 + (c - 0xD800) * 0x400 + (d - 0xDC00)) # utf16_decode r"
      using True by simp
    ultimately show ?thesis
      by simp
  next
    case False
    have "scalar (if is_surrogate c then 0xFFFD else c)"
      using "3.prems" by (simp add: scalar_def is_surrogate_def)
    moreover have "\<forall>cp\<in>set (utf16_decode (d # r)). scalar cp"
      using "3.IH"(2)[OF False] "3.prems" by simp
    moreover have "utf16_decode (c # d # r) =
                   (if is_surrogate c then 0xFFFD else c) # utf16_decode (d # r)"
      by (simp only: utf16_decode.simps if_not_P[OF False])
    ultimately show ?thesis
      by simp
  qed
qed

lemma mod_offset: "x < m \<Longrightarrow> (k * m + x) mod m = (x::nat)"
  by simp

lemma utf8_dec_ascii:
  "b \<le> 0x7F \<Longrightarrow> utf8_dec cp 0 lo hi (b # bs) = b # utf8_dec 0 0 0x80 0xBF bs"
  by simp

lemma utf8_dec_lead2:
  "0xC2 \<le> b \<Longrightarrow> b \<le> 0xDF \<Longrightarrow>
   utf8_dec cp 0 lo hi (b # bs) = utf8_dec (b mod 0x20) 1 0x80 0xBF bs"
  by simp

lemma utf8_dec_lead3:
  "0xE0 \<le> b \<Longrightarrow> b \<le> 0xEF \<Longrightarrow>
   utf8_dec cp 0 lo hi (b # bs) =
     utf8_dec (b mod 0x10) 2 (if b = 0xE0 then 0xA0 else 0x80) (if b = 0xED then 0x9F else 0xBF) bs"
  by simp

lemma utf8_dec_lead4:
  "0xF0 \<le> b \<Longrightarrow> b \<le> 0xF4 \<Longrightarrow>
   utf8_dec cp 0 lo hi (b # bs) =
     utf8_dec (b mod 0x8) 3 (if b = 0xF0 then 0x90 else 0x80) (if b = 0xF4 then 0x8F else 0xBF) bs"
  by simp

lemma utf8_dec_cont:
  "1 < need \<Longrightarrow> lo \<le> b \<Longrightarrow> b \<le> hi \<Longrightarrow>
   utf8_dec cp need lo hi (b # bs) = utf8_dec (cp * 0x40 + b mod 0x40) (need - 1) 0x80 0xBF bs"
  by simp

lemma utf8_dec_last:
  "lo \<le> b \<Longrightarrow> b \<le> hi \<Longrightarrow>
   utf8_dec cp 1 lo hi (b # bs) = (cp * 0x40 + b mod 0x40) # utf8_dec 0 0 0x80 0xBF bs"
  by simp

declare utf8_dec.simps [simp del]

lemma utf8_dec_bytes:
  assumes "scalar cp"
  shows "utf8_dec 0 0 0x80 0xBF (utf8_bytes cp @ bs) = cp # utf8_dec 0 0 0x80 0xBF bs"
proof -
  define r where "r = cp mod 0x40"
  define d1 where "d1 = cp div 0x40"
  have r: "r < 0x40" and cp: "cp = d1 * 0x40 + r"
    by (simp_all add: r_def d1_def)
  have rb: "(0x80 + r) mod 0x40 = r"
    using mod_offset[OF r, of 2] by simp
  show ?thesis
  proof (cases "cp < 0x80")
    case True
    then show ?thesis
      by (simp add: utf8_bytes_def utf8_dec_ascii)
  next
    case n1: False
    show ?thesis
    proof (cases "cp < 0x800")
      case True
      have e: "utf8_bytes cp = [0xC0 + d1, 0x80 + r]"
        using n1 True by (simp add: utf8_bytes_def d1_def r_def)
      have d: "2 \<le> d1" "d1 < 0x20"
        using n1 True cp r by linarith+
      have lead: "(0xC0 + d1) mod 0x20 = d1"
        using mod_offset[OF d(2), of 6] by simp
      have "utf8_dec 0 0 0x80 0xBF ([0xC0 + d1, 0x80 + r] @ bs) =
            utf8_dec d1 1 0x80 0xBF ((0x80 + r) # bs)"
        using utf8_dec_lead2[of "0xC0 + d1" 0 "0x80" "0xBF" "(0x80 + r) # bs"] d lead by simp
      also have "\<dots> = (d1 * 0x40 + r) # utf8_dec 0 0 0x80 0xBF bs"
        using utf8_dec_last[of "0x80" "0x80 + r" "0xBF" d1 bs] r rb by simp
      finally show ?thesis
        unfolding e using cp by simp
    next
      case n2: False
      define q2 where "q2 = d1 mod 0x40"
      define d2 where "d2 = d1 div 0x40"
      have q2: "q2 < 0x40" and d1: "d1 = d2 * 0x40 + q2"
        by (simp_all add: q2_def d2_def)
      have qb: "(0x80 + q2) mod 0x40 = q2"
        using mod_offset[OF q2, of 2] by simp
      show ?thesis
      proof (cases "cp < 0x10000")
        case True
        have e: "utf8_bytes cp = [0xE0 + d2, 0x80 + q2, 0x80 + r]"
          using n1 n2 True
          by (simp add: utf8_bytes_def d1_def d2_def r_def q2_def div_mult2_eq[symmetric])
        have d: "d2 < 0x10"
          using True cp d1 r q2 by linarith
        have ns: "cp < 0xD800 \<or> 0xDFFF < cp"
          using assms by (auto simp: scalar_def is_surrogate_def)
        have lead: "(0xE0 + d2) mod 0x10 = d2"
          using mod_offset[OF d, of 14] by simp
        have lo: "(if 0xE0 + d2 = 0xE0 then 0xA0 else 0x80) \<le> 0x80 + q2"
          using n2 cp d1 r q2 by (simp split: if_splits; linarith)
        have hi: "0x80 + q2 \<le> (if 0xE0 + d2 = 0xED then 0x9F else 0xBF)"
          using ns True cp d1 r q2 by (simp split: if_splits; linarith)
        have "utf8_dec 0 0 0x80 0xBF ([0xE0 + d2, 0x80 + q2, 0x80 + r] @ bs) =
              utf8_dec d2 2 (if 0xE0 + d2 = 0xE0 then 0xA0 else 0x80)
                (if 0xE0 + d2 = 0xED then 0x9F else 0xBF) ((0x80 + q2) # (0x80 + r) # bs)"
          using utf8_dec_lead3[of "0xE0 + d2" 0 "0x80" "0xBF" "(0x80 + q2) # (0x80 + r) # bs"]
            d lead by simp
        also have "\<dots> = utf8_dec (d2 * 0x40 + q2) 1 0x80 0xBF ((0x80 + r) # bs)"
          using utf8_dec_cont[OF _ lo hi, of 2 d2 "(0x80 + r) # bs"] qb by simp
        also have "\<dots> = ((d2 * 0x40 + q2) * 0x40 + r) # utf8_dec 0 0 0x80 0xBF bs"
          using utf8_dec_last[of "0x80" "0x80 + r" "0xBF" "d2 * 0x40 + q2" bs] r rb by simp
        finally show ?thesis
          unfolding e using cp d1 by simp
      next
        case n3: False
        define q3 where "q3 = d2 mod 0x40"
        define d3 where "d3 = d2 div 0x40"
        have q3: "q3 < 0x40" and d2: "d2 = d3 * 0x40 + q3"
          by (simp_all add: q3_def d3_def)
        have q3b: "(0x80 + q3) mod 0x40 = q3"
          using mod_offset[OF q3, of 2] by simp
        have lt: "cp < 0x110000"
          using assms by (simp add: scalar_def)
        have e: "utf8_bytes cp = [0xF0 + d3, 0x80 + q3, 0x80 + q2, 0x80 + r]"
          using n1 n2 n3
          by (simp add: utf8_bytes_def d1_def d2_def d3_def r_def q2_def q3_def
              div_mult2_eq[symmetric])
        have d: "d3 \<le> 4"
          using lt cp d1 d2 r q2 q3 by linarith
        then have d8: "d3 < 8"
          by simp
        have lead: "(0xF0 + d3) mod 0x8 = d3"
          using mod_offset[OF d8, of 30] by simp
        have lo: "(if 0xF0 + d3 = 0xF0 then 0x90 else 0x80) \<le> 0x80 + q3"
          using n3 cp d1 d2 r q2 q3 by (simp split: if_splits; linarith)
        have hi: "0x80 + q3 \<le> (if 0xF0 + d3 = 0xF4 then 0x8F else 0xBF)"
          using lt cp d1 d2 r q2 q3 by (simp split: if_splits; linarith)
        have "utf8_dec 0 0 0x80 0xBF ([0xF0 + d3, 0x80 + q3, 0x80 + q2, 0x80 + r] @ bs) =
              utf8_dec d3 3 (if 0xF0 + d3 = 0xF0 then 0x90 else 0x80)
                (if 0xF0 + d3 = 0xF4 then 0x8F else 0xBF)
                ((0x80 + q3) # (0x80 + q2) # (0x80 + r) # bs)"
          using utf8_dec_lead4[of "0xF0 + d3" 0 "0x80" "0xBF"
              "(0x80 + q3) # (0x80 + q2) # (0x80 + r) # bs"] d lead by simp
        also have "\<dots> = utf8_dec (d3 * 0x40 + q3) 2 0x80 0xBF ((0x80 + q2) # (0x80 + r) # bs)"
          using utf8_dec_cont[OF _ lo hi, of 3 d3 "(0x80 + q2) # (0x80 + r) # bs"] q3b by simp
        also have "\<dots> = utf8_dec ((d3 * 0x40 + q3) * 0x40 + q2) 1 0x80 0xBF ((0x80 + r) # bs)"
          using utf8_dec_cont[of 2 "0x80" "0x80 + q2" "0xBF" "d3 * 0x40 + q3" "(0x80 + r) # bs"]
            q2 qb by simp
        also have "\<dots> = (((d3 * 0x40 + q3) * 0x40 + q2) * 0x40 + r) # utf8_dec 0 0 0x80 0xBF bs"
          using utf8_dec_last[of "0x80" "0x80 + r" "0xBF" "(d3 * 0x40 + q3) * 0x40 + q2" bs] r rb
          by simp
        finally show ?thesis
          unfolding e using cp d1 d2 by simp
      qed
    qed
  qed
qed

lemma utf8_roundtrip:
  "\<forall>cp\<in>set cps. scalar cp \<Longrightarrow> utf8_decode (utf8_encode cps) = cps"
proof -
  have "\<forall>cp\<in>set cps. scalar cp \<Longrightarrow>
        utf8_dec 0 0 0x80 0xBF (utf8_encode cps @ bs) = cps @ utf8_dec 0 0 0x80 0xBF bs" for bs
    unfolding utf8_encode_def by (induction cps) (simp_all add: utf8_dec_bytes)
  from this[of "[]"] show "\<forall>cp\<in>set cps. scalar cp \<Longrightarrow> utf8_decode (utf8_encode cps) = cps"
    by (simp add: utf8_decode_def utf8_dec.simps)
qed

lemma utf8_bytes_range:
  assumes "scalar cp"
  shows "\<forall>b\<in>set (utf8_bytes cp). b < 256"
proof -
  have m: "0x80 + x mod 0x40 < (256::nat)" for x
    using mod_less_divisor[of "0x40" x] by linarith
  have "cp < 0x110000"
    using assms by (simp add: scalar_def)
  then have "cp div 0x40000 < 8" "cp < 0x800 \<Longrightarrow> cp div 0x40 < 0x20"
    "cp < 0x10000 \<Longrightarrow> cp div 0x1000 < 0x10"
    by (simp_all add: less_mult_imp_div_less)
  then show ?thesis
    using m by (auto simp: utf8_bytes_def)
qed

subsection \<open>Percent-decoding inverts the serializer's byte encoding\<close>

lemma hex_digit_props:
  assumes "d < 16"
  shows "is_hex (hex_digit d)" "hex_value (hex_digit d) = d" "urlencoded_safe (hex_digit d)"
  using assms by (auto simp: is_hex_def hex_digit_def hex_value_def urlencoded_safe_def)

lemma urlencoded_byte_units:
  "b < 256 \<Longrightarrow> \<forall>c\<in>set (urlencoded_byte b). encoded_unit c"
  using hex_digit_props(3)[of "b div 0x10"] hex_digit_props(3)[of "b mod 0x10"]
  by (auto simp: urlencoded_byte_def encoded_unit_def less_mult_imp_div_less)

lemma percent_decode_byte:
  assumes "b < 256"
  shows "percent_decode (plus_to_space (urlencoded_byte b) @ rest) = b # percent_decode rest"
proof -
  have h: "b div 0x10 < 16" "b mod 0x10 < 16"
    using assms by (simp_all add: less_mult_imp_div_less)
  have p: "hex_digit d \<noteq> 0x2B" if "d < 16" for d
    using that by (auto simp: hex_digit_def)
  show ?thesis
  proof (cases "b = 0x20 \<or> urlencoded_safe b")
    case True
    then have "plus_to_space (urlencoded_byte b) = [b]" "b \<noteq> 0x25"
      by (auto simp: urlencoded_byte_def plus_to_space_def urlencoded_safe_def)
    then show ?thesis by simp
  next
    case False
    then have "plus_to_space (urlencoded_byte b) =
               [0x25, hex_digit (b div 0x10), hex_digit (b mod 0x10)]"
      using p[OF h(1)] p[OF h(2)] by (simp add: urlencoded_byte_def plus_to_space_def)
    moreover have "hex_value (hex_digit (b div 0x10)) * 0x10 + hex_value (hex_digit (b mod 0x10)) = b"
      by (simp add: hex_digit_props(2)[OF h(1)] hex_digit_props(2)[OF h(2)])
    ultimately show ?thesis
      using hex_digit_props(1)[OF h(1)] hex_digit_props(1)[OF h(2)] by simp
  qed
qed

lemma plus_to_space_append [simp]:
  "plus_to_space (xs @ ys) = plus_to_space xs @ plus_to_space ys"
  by (simp add: plus_to_space_def)

lemma percent_roundtrip:
  "\<forall>b\<in>set bs. b < 256 \<Longrightarrow>
   percent_decode (plus_to_space (concat (map urlencoded_byte bs))) = bs"
proof (induction bs)
  case Nil
  then show ?case by (simp add: plus_to_space_def)
next
  case (Cons b bs)
  then show ?case
    using percent_decode_byte[of b "plus_to_space (concat (map urlencoded_byte bs))"]
    by simp
qed

lemma utf8_encode_range:
  "\<forall>cp\<in>set cps. scalar cp \<Longrightarrow> \<forall>b\<in>set (utf8_encode cps). b < 256"
  unfolding utf8_encode_def using utf8_bytes_range by auto

lemma decode_encode_component:
  assumes "\<forall>c\<in>set s. c < 0x10000" and "toUSV s = s"
  shows "decode_component (urlencoded_string s) = s"
proof -
  have sc: "\<forall>cp\<in>set (utf16_decode s). scalar cp"
    using utf16_decode_scalar[OF assms(1)] .
  have "percent_decode (plus_to_space (urlencoded_string s)) = utf8_encode (utf16_decode s)"
    unfolding urlencoded_string_def using percent_roundtrip[OF utf8_encode_range[OF sc]] .
  then have "decode_component (urlencoded_string s) = utf16_encode (utf16_decode s)"
    by (simp add: decode_component_def utf8_roundtrip[OF sc])
  then show ?thesis
    using assms(2) by (simp add: toUSV_def)
qed

lemma urlencoded_string_units:
  assumes "\<forall>c\<in>set s. c < 0x10000"
  shows "\<forall>c\<in>set (urlencoded_string s). encoded_unit c"
  unfolding urlencoded_string_def
  using urlencoded_byte_units utf8_encode_range[OF utf16_decode_scalar[OF assms]] by auto

lemma ascii_utf8:
  "\<forall>c\<in>set s. c < 0x80 \<Longrightarrow> utf8_encode (utf16_decode s) = s"
proof (induction s rule: utf16_decode.induct)
  case 1
  then show ?case by (simp add: utf8_encode_def)
next
  case (2 c)
  then show ?case by (simp add: utf8_encode_def utf8_bytes_def is_surrogate_def)
next
  case (3 c d r)
  then have "\<not> (is_high c \<and> is_low d)" "\<not> is_surrogate c" "c < 0x80"
    by (simp_all add: is_high_def is_surrogate_def)
  then have "utf16_decode (c # d # r) = c # utf16_decode (d # r)"
    by simp
  moreover have "utf8_encode (utf16_decode (d # r)) = d # r"
    using 3 \<open>\<not> (is_high c \<and> is_low d)\<close> by simp
  ultimately show ?case
    using \<open>c < 0x80\<close> by (simp add: utf8_encode_def utf8_bytes_def)
qed

lemma encoded_unit_facts:
  assumes "encoded_unit c"
  shows "c < 0x80" "c \<noteq> 0x26" "c \<noteq> 0x3D" "c \<noteq> 0x3F" "c \<noteq> 0x23" "c \<noteq> 0x2F"
    "\<not> isWhiteSpace c"
  using assms by (auto simp: encoded_unit_def urlencoded_safe_def isWhiteSpace_def)

subsection \<open>The parser inverts the serializer\<close>

lemma usp_toString_Cons:
  "usp_toString (p # ps) = pair_string p @ (if ps = [] then [] else 0x26 # usp_toString ps)"
  by (cases ps) (simp_all add: pair_string_def)

lemma split_on_not_Nil [simp]: "split_on c xs \<noteq> []"
  by (induction xs) (auto split: list.splits)

lemma split_on_notin: "c \<notin> set xs \<Longrightarrow> split_on c xs = [xs]"
  by (induction xs) auto

lemma split_on_append: "c \<notin> set xs \<Longrightarrow> split_on c (xs @ c # ys) = xs # split_on c ys"
  by (induction xs) auto

lemma pair_string_units:
  assumes "usv_string (fst p)" and "usv_string (snd p)"
  shows "\<forall>c\<in>set (pair_string p). encoded_unit c \<or> c = 0x3D"
  using assms urlencoded_string_units[of "fst p"] urlencoded_string_units[of "snd p"]
  by (auto simp: pair_string_def usv_string_def)

lemma pair_string_no_amp:
  assumes "usv_string (fst p)" and "usv_string (snd p)"
  shows "0x26 \<notin> set (pair_string p)"
  using pair_string_units[OF assms] encoded_unit_facts(2) by fastforce

lemma split_on_toString:
  assumes "\<forall>p\<in>set ps. usv_string (fst p) \<and> usv_string (snd p)" and "ps \<noteq> []"
  shows "split_on 0x26 (usp_toString ps) = map pair_string ps"
  using assms
proof (induction ps)
  case Nil
  then show ?case by simp
next
  case (Cons p ps)
  have n: "0x26 \<notin> set (pair_string p)"
    using pair_string_no_amp Cons.prems(1) by simp
  show ?case
  proof (cases "ps = []")
    case True
    then show ?thesis
      using n by (simp add: usp_toString_Cons split_on_notin)
  next
    case False
    then have "split_on 0x26 (usp_toString ps) = map pair_string ps"
      using Cons by simp
    then show ?thesis
      using n False by (simp add: usp_toString_Cons split_on_append)
  qed
qed

lemma parse_pair_string:
  assumes "usv_string (fst p)" and "usv_string (snd p)"
  shows "parse_pair (pair_string p) = p"
proof -
  have k: "0x3D \<notin> set (urlencoded_string (fst p))"
    using urlencoded_string_units[of "fst p"] assms(1) encoded_unit_facts(3)
    by (fastforce simp: usv_string_def)
  have a: "takeWhile (\<lambda>b. b \<noteq> 0x3D) (pair_string p) = urlencoded_string (fst p)"
    "tl (dropWhile (\<lambda>b. b \<noteq> 0x3D) (pair_string p)) = urlencoded_string (snd p)"
    using split_at_first[OF _ k, of "pair_string p" "urlencoded_string (snd p)"]
    by (simp_all add: pair_string_def)
  have "0x3D \<in> set (pair_string p)"
    by (simp add: pair_string_def)
  then have "parse_pair (pair_string p) =
             (decode_component (urlencoded_string (fst p)),
              decode_component (urlencoded_string (snd p)))"
    unfolding parse_pair_def a by simp
  then show ?thesis
    using assms by (simp add: decode_encode_component usv_string_def)
qed

lemma urlencoded_parse_toString:
  assumes "\<forall>p\<in>set ps. usv_string (fst p) \<and> usv_string (snd p)"
  shows "urlencoded_parse (usp_toString ps) = ps"
proof (cases "ps = []")
  case True
  then show ?thesis by (simp add: urlencoded_parse_def)
next
  case False
  have ne: "pair_string p \<noteq> []" for p
    by (simp add: pair_string_def)
  have "filter (\<lambda>s. s \<noteq> []) (map pair_string ps) = map pair_string ps"
    using ne by (simp add: filter_id_conv)
  moreover have "map parse_pair (map pair_string ps) = ps"
    using assms by (simp add: parse_pair_string map_idI)
  ultimately show ?thesis
    using split_on_toString[OF assms False] by (simp add: urlencoded_parse_def)
qed

lemma usp_toString_units:
  assumes "\<forall>p\<in>set ps. usv_string (fst p) \<and> usv_string (snd p)"
  shows "\<forall>c\<in>set (usp_toString ps). encoded_unit c \<or> c = 0x3D \<or> c = 0x26"
  using assms
proof (induction ps)
  case Nil
  then show ?case by simp
next
  case (Cons p ps)
  then show ?case
    using pair_string_units[of p] by (auto simp: usp_toString_Cons)
qed

lemma usp_toString_facts:
  assumes "\<forall>p\<in>set ps. usv_string (fst p) \<and> usv_string (snd p)"
    and "c \<in> set (usp_toString ps)"
  shows "c < 0x80" "c \<noteq> 0x3F" "c \<noteq> 0x23" "\<not> isWhiteSpace c"
proof -
  have "encoded_unit c \<or> c = 0x3D \<or> c = 0x26"
    using usp_toString_units[OF assms(1)] assms(2) by blast
  then show "c < 0x80" "c \<noteq> 0x3F" "c \<noteq> 0x23" "\<not> isWhiteSpace c"
    using encoded_unit_facts[of c] by (auto simp: isWhiteSpace_def)
qed

lemma usp_parse_toString:
  assumes "\<forall>p\<in>set ps. usv_string (fst p) \<and> usv_string (snd p)"
  shows "usp_parse (usp_toString ps) = ps"
proof -
  define q where "q = usp_toString ps"
  have f: "\<forall>c\<in>set q. c < 0x80 \<and> c \<noteq> 0x3F"
    unfolding q_def using usp_toString_facts[OF assms] by blast
  then have "(case q of c # r \<Rightarrow> if c = 0x3F then r else q | [] \<Rightarrow> []) = q"
    by (cases q) auto
  moreover have "utf8_encode (utf16_decode q) = q"
    using f by (simp add: ascii_utf8)
  ultimately show ?thesis
    unfolding usp_parse_def q_def[symmetric]
    using urlencoded_parse_toString[OF assms] by (simp add: q_def)
qed

lemma usp_toString_eq_Nil [simp]: "usp_toString ps = [] \<longleftrightarrow> ps = []"
  by (cases ps) (simp_all add: usp_toString_Cons pair_string_def)

subsection \<open>Trimming, and the query string that \<open>mergeUrl\<close> builds\<close>

lemma dropWhile_all: "(\<forall>c\<in>set (dropWhile P v). P c) \<longleftrightarrow> dropWhile P v = []"
proof
  assume a: "\<forall>c\<in>set (dropWhile P v). P c"
  show "dropWhile P v = []"
  proof (rule ccontr)
    assume n: "dropWhile P v \<noteq> []"
    then have "\<not> P (hd (dropWhile P v))"
      by (rule hd_dropWhile)
    moreover have "hd (dropWhile P v) \<in> set (dropWhile P v)"
      using n by (rule hd_in_set)
    ultimately show False
      using a by blast
  qed
next
  assume "dropWhile P v = []"
  then have "\<forall>x\<in>set v. P x"
    by simp
  then show "\<forall>c\<in>set (dropWhile P v). P c"
    by (auto dest: set_dropWhileD)
qed

lemma trim_eq_Nil: "trim v = [] \<longleftrightarrow> (\<forall>c\<in>set v. isWhiteSpace c)"
proof -
  have "trim v = [] \<longleftrightarrow> (\<forall>c\<in>set (dropWhile isWhiteSpace v). isWhiteSpace c)"
    by (simp add: trim_def dropWhile_eq_Nil_conv)
  also have "\<dots> \<longleftrightarrow> dropWhile isWhiteSpace v = []"
    by (rule dropWhile_all)
  also have "\<dots> \<longleftrightarrow> (\<forall>c\<in>set v. isWhiteSpace c)"
    by (simp add: dropWhile_eq_Nil_conv)
  finally show ?thesis .
qed

lemma trim_id:
  assumes "s \<noteq> []" and "\<not> isWhiteSpace (hd s)" and "\<not> isWhiteSpace (last s)"
  shows "trim s = s"
proof -
  have "dropWhile isWhiteSpace s = s"
    using assms(1,2) by (cases s) auto
  moreover have "dropWhile isWhiteSpace (rev s) = rev s"
    using assms(1,3) by (cases "rev s") (auto simp: hd_rev[symmetric])
  ultimately show ?thesis
    by (simp add: trim_def)
qed

lemma length_dropWhile_less:
  "xs \<noteq> [] \<Longrightarrow> P (hd xs) \<Longrightarrow> length (dropWhile P xs) < length xs"
  using length_dropWhile_le[of P "tl xs"] by (cases xs) auto

lemma trim_fixed:
  assumes "trim s = s" and "s \<noteq> []"
  shows "\<not> isWhiteSpace (hd s)" and "\<not> isWhiteSpace (last s)"
proof -
  define t where "t = dropWhile isWhiteSpace s"
  have l: "length (trim s) \<le> length t" "length t \<le> length s"
    using length_dropWhile_le[of isWhiteSpace "rev t"] length_dropWhile_le[of isWhiteSpace s]
    by (simp_all add: trim_def t_def)
  show "\<not> isWhiteSpace (hd s)"
  proof
    assume "isWhiteSpace (hd s)"
    then have "length t < length s"
      unfolding t_def using length_dropWhile_less assms(2) by blast
    then show False
      using l assms(1) by simp
  qed
  show "\<not> isWhiteSpace (last s)"
  proof
    assume w: "isWhiteSpace (last s)"
    have "t \<noteq> []"
      using l assms by auto
    moreover have "s = takeWhile isWhiteSpace s @ t"
      by (simp add: t_def)
    ultimately have "last t = last s"
      by (metis last_appendR)
    then have "isWhiteSpace (hd (rev t))"
      using w \<open>t \<noteq> []\<close> by (simp add: hd_rev)
    then have "length (dropWhile isWhiteSpace (rev t)) < length (rev t)"
      using length_dropWhile_less[of "rev t" isWhiteSpace] \<open>t \<noteq> []\<close> by simp
    then have "length (trim s) < length t"
      by (simp add: trim_def t_def)
    then show False
      using l assms(1) by simp
  qed
qed

lemma usp_set_not_Nil: "usp_set ps k v \<noteq> []"
proof (cases "toUSV k \<in> fst ` set ps")
  case True
  then have "ps \<noteq> []" by auto
  then have "set_first ps (toUSV k) (toUSV v) \<noteq> []"
    by (cases ps) auto
  then show ?thesis
    using True by (simp add: usp_set_def Let_def)
next
  case False
  then show ?thesis
    by (simp add: usp_set_def Let_def)
qed

lemma foldl_usp_set_not_Nil:
  "acc \<noteq> [] \<or> kvs \<noteq> [] \<Longrightarrow> foldl (\<lambda>ps (k, v). usp_set ps k v) acc kvs \<noteq> []"
proof (induction kvs arbitrary: acc)
  case Nil
  then show ?case by simp
next
  case (Cons p kvs)
  have "usp_set acc (fst p) (snd p) \<noteq> []"
    by (rule usp_set_not_Nil)
  then show ?case
    using Cons.IH[of "usp_set acc (fst p) (snd p)"] by (simp add: case_prod_beta)
qed

lemma foldl_skip_blank:
  "foldl (\<lambda>ps (key, val). if val \<noteq> [] \<and> trim val \<noteq> [] then usp_set ps key val else ps) acc kvs =
   foldl (\<lambda>ps (k, v). usp_set ps k v) acc
     (filter (\<lambda>(k, v). \<not> (\<forall>c\<in>set v. isWhiteSpace c)) kvs)"
proof (induction kvs arbitrary: acc)
  case Nil
  then show ?case by simp
next
  case (Cons p kvs)
  have "(snd p \<noteq> [] \<and> trim (snd p) \<noteq> []) \<longleftrightarrow> \<not> (\<forall>c\<in>set (snd p). isWhiteSpace c)"
    by (auto simp: trim_eq_Nil)
  then show ?case
    using Cons.IH by (cases p) simp
qed

lemma mergeUrl_cases:
  assumes "kept = filter (\<lambda>(k, v). \<not> (\<forall>c\<in>set v. isWhiteSpace c)) parameters"
    and "queryString = usp_toString (foldl (\<lambda>ps (k, v). usp_set ps k v) [] kept)"
  shows "mergeUrl c parameters =
           (if queryString = [] then c
            else if c = [] then queryString
            else c @ (if 0x3F \<in> set c then str ''&'' else str ''?'') @ queryString)"
proof (cases "c = [] \<and> parameters = []")
  case True
  then show ?thesis
    using assms by (simp add: mergeUrl_def)
next
  case False
  then show ?thesis
    unfolding mergeUrl_def Let_def foldl_skip_blank assms
    by (simp add: str_includes_single)
qed

subsection \<open>Extracting the parameters of a serialized list\<close>

lemma toUSV_usv: "usv_string s \<Longrightarrow> toUSV s = s"
  by (simp add: usv_string_def)

lemma foldl_usp_set_fresh:
  assumes "distinct (map fst kvs)"
    and "\<forall>p\<in>set kvs. usv_string (fst p) \<and> usv_string (snd p)"
    and "fst ` set acc \<inter> fst ` set kvs = {}"
  shows "foldl (\<lambda>ps (k, v). usp_set ps k v) acc kvs = acc @ kvs"
  using assms
proof (induction kvs arbitrary: acc)
  case Nil
  then show ?case by simp
next
  case (Cons p kvs)
  obtain k v where p: "p = (k, v)"
    by (cases p)
  have "k \<notin> fst ` set acc"
    using Cons.prems(3) p by auto
  then have s: "usp_set acc k v = acc @ [(k, v)]"
    using Cons.prems(2) p by (simp add: usp_set_def Let_def toUSV_usv)
  have "fst ` set (acc @ [(k, v)]) \<inter> fst ` set kvs = {}"
    using Cons.prems(1,3) p by auto
  then have "foldl (\<lambda>ps (k, v). usp_set ps k v) (acc @ [(k, v)]) kvs = (acc @ [(k, v)]) @ kvs"
    using Cons.IH[of "acc @ [(k, v)]"] Cons.prems(1,2) by simp
  then show ?case
    using s p by simp
qed

lemma filter_key_distinct:
  assumes "distinct (map fst ps)" and "(k, v) \<in> set ps"
  shows "filter (\<lambda>p. fst p = k) ps = [(k, v)]"
  using assms
proof (induction ps)
  case Nil
  then show ?case by simp
next
  case (Cons p ps)
  show ?case
  proof (cases "p = (k, v)")
    case True
    then have "k \<notin> fst ` set ps"
      using Cons.prems(1) by simp
    then have "filter (\<lambda>p. fst p = k) ps = []"
      by (auto simp: filter_empty_conv)
    then show ?thesis
      using True by simp
  next
    case False
    then have i: "(k, v) \<in> set ps"
      using Cons.prems(2) by simp
    then have "fst p \<noteq> k"
      using Cons.prems(1) by (auto simp: image_iff)
    then show ?thesis
      using Cons.IH i Cons.prems(1) by simp
  qed
qed

lemma urlWithoutFragment_id: "0x23 \<notin> set s \<Longrightarrow> urlWithoutFragment s = s"
  by (auto simp: urlWithoutFragment_def takeWhile_eq_all_conv)

lemma extractParams_toString:
  assumes "distinct (map fst ps)"
    and "\<forall>p\<in>set ps. fst p \<noteq> [] \<and> fst p \<noteq> str ''__proto__'' \<and>
                    usv_string (fst p) \<and> usv_string (snd p)"
  shows "extractParams (usp_toString ps) = map_of ps"
proof
  fix k
  have u: "\<forall>p\<in>set ps. usv_string (fst p) \<and> usv_string (snd p)"
    using assms(2) by blast
  note l = extractParams_lookup[of "usp_toString ps" k, unfolded usp_parse_toString[OF u]]
  show "extractParams (usp_toString ps) k = map_of ps k"
  proof (cases "k \<in> fst ` set ps")
    case True
    then obtain v where kv: "(k, v) \<in> set ps"
      by auto
    then have "k \<noteq> []" "k \<noteq> str ''__proto__''"
      using assms(2) by auto
    moreover have "map_of ps k = Some v"
      using assms(1) kv by simp
    ultimately show ?thesis
      using l True filter_key_distinct[OF assms(1) kv] by simp
  next
    case False
    then have "map_of ps k = None"
      by (simp add: map_of_eq_None_iff)
    then show ?thesis
      using l False by simp
  qed
qed

section \<open>The merger\<close>

text \<open>
  C5, as the source has it. The encoded query string is built from the entries whose
  value is not empty or all-whitespace; it is empty exactly when no entry is kept. If it
  is empty, the result is \<open>cleanUrl\<close> unchanged. Otherwise, an empty \<open>cleanUrl\<close>
  gives the encoded query string alone, and a non-empty \<open>cleanUrl\<close> is followed by
  \<open>?\<close> when it contains no \<open>?\<close>, by \<open>&\<close> when it does, and by the encoded query
  string.
\<close>

theorem mergeUrl_query:
  assumes "kept = filter (\<lambda>(k, v). \<not> (\<forall>c\<in>set v. isWhiteSpace c)) parameters"
    and "queryString = usp_toString (foldl (\<lambda>ps (k, v). usp_set ps k v) [] kept)"
  shows "(queryString = [] \<longleftrightarrow> kept = []) \<and>
         (queryString = [] \<longrightarrow> mergeUrl c parameters = c) \<and>
         (queryString \<noteq> [] \<and> c = [] \<longrightarrow> mergeUrl c parameters = queryString) \<and>
         (queryString \<noteq> [] \<and> c \<noteq> [] \<and> 0x3F \<notin> set c \<longrightarrow>
            mergeUrl c parameters = c @ str ''?'' @ queryString) \<and>
         (queryString \<noteq> [] \<and> c \<noteq> [] \<and> 0x3F \<in> set c \<longrightarrow>
            mergeUrl c parameters = c @ str ''&'' @ queryString)"
proof -
  have "queryString = [] \<longleftrightarrow> kept = []"
    unfolding assms(2) using foldl_usp_set_not_Nil[of "[]" kept] by auto
  then show ?thesis
    unfolding mergeUrl_cases[OF assms] by simp
qed

theorem mergeUrl_query_witness:
  "str ''b=2'' = usp_toString (foldl (\<lambda>ps (k, v). usp_set ps k v) [] [(str ''b'', str ''2'')]) \<and>
   str ''b=2'' \<noteq> [] \<and> str ''http://x.com'' \<noteq> [] \<and> 0x3F \<notin> set (str ''http://x.com'') \<and>
   mergeUrl (str ''http://x.com'') [(str ''a'', []), (str ''b'', str ''2'')] =
     str ''http://x.com'' @ str ''?'' @ str ''b=2''"
proof -
  have a: "[(str ''b'', str ''2'')] =
           filter (\<lambda>(k, v). \<not> (\<forall>c\<in>set v. isWhiteSpace c))
             [(str ''a'', []), (str ''b'', str ''2'')]"
    by code_simp
  have b: "str ''b=2'' =
           usp_toString (foldl (\<lambda>ps (k, v). usp_set ps k v) [] [(str ''b'', str ''2'')])"
    by code_simp
  have c: "str ''b=2'' \<noteq> []" "str ''http://x.com'' \<noteq> []" "0x3F \<notin> set (str ''http://x.com'')"
    by code_simp+
  from mergeUrl_query[OF a b, of "str ''http://x.com''"] a b c show ?thesis
    by blast
qed

text \<open>
  C5 as stated fails for an empty \<open>cleanUrl\<close>: the encoded query string is returned
  alone, not appended to \<open>cleanUrl\<close> with \<open>?\<close>.
\<close>

theorem mergeUrl_empty_base_counterexample:
  "mergeUrl [] [(str ''a'', str ''1'')] = str ''a=1'' \<and>
   mergeUrl [] [(str ''a'', str ''1'')] \<noteq> [] @ str ''?'' @ str ''a=1''"
  by code_simp

section \<open>Splitting what was merged\<close>

text \<open>
  C1, as the source has it. Let \<open>cleanUrl\<close> contain neither \<open>?\<close> nor \<open>#\<close> and have
  no whitespace at either end; let the parameters have distinct, non-empty keys other
  than \<open>__proto__\<close> and values that are not all-whitespace, keys and values being
  strings without unpaired surrogates. If \<open>cleanUrl\<close> is empty and there are
  parameters, let the merged string pass the splitter's naked-query test; if there are
  no parameters, let \<open>cleanUrl\<close> fail it. Then splitting the merged string returns
  \<open>cleanUrl\<close> and exactly the parameters.
\<close>

theorem split_merge_roundtrip:
  assumes "0x3F \<notin> set c" and "0x23 \<notin> set c" and "trim c = c"
    and "distinct (map fst ps)"
    and "\<forall>p\<in>set ps. fst p \<noteq> [] \<and> fst p \<noteq> str ''__proto__'' \<and>
                    usv_string (fst p) \<and> usv_string (snd p) \<and>
                    \<not> (\<forall>x\<in>set (snd p). isWhiteSpace x)"
    and "c = [] \<and> ps \<noteq> [] \<longrightarrow> nakedQueryTest (mergeUrl c ps)"
    and "ps = [] \<longrightarrow> \<not> nakedQueryTest c"
  shows "splitUrl (mergeUrl c ps) = \<lparr>cleanUrl = c, params = map_of ps\<rparr>"
proof -
  define q where "q = usp_toString ps"
  have u: "\<forall>p\<in>set ps. usv_string (fst p) \<and> usv_string (snd p)"
    using assms(5) by blast
  have k: "filter (\<lambda>(k, v). \<not> (\<forall>x\<in>set v. isWhiteSpace x)) ps = ps"
    using assms(5) by (fastforce simp: filter_id_conv)
  have f: "foldl (\<lambda>ps (k, v). usp_set ps k v) [] ps = ps"
    using foldl_usp_set_fresh[OF assms(4) u, of "[]"] by simp
  have m: "mergeUrl c ps =
           (if q = [] then c else if c = [] then q
            else c @ (if 0x3F \<in> set c then str ''&'' else str ''?'') @ q)"
    using mergeUrl_cases[OF k[symmetric] refl, of c] by (simp add: f q_def)
  have e: "extractParams q = map_of ps"
    unfolding q_def using extractParams_toString[OF assms(4)] assms(5) by blast
  have qf: "0x3F \<notin> set q" "0x23 \<notin> set q" "\<forall>x\<in>set q. \<not> isWhiteSpace x"
    unfolding q_def using usp_toString_facts[OF u] by blast+
  show ?thesis
  proof (cases "ps = []")
    case True
    then have "mergeUrl c ps = c"
      using m by (simp add: q_def)
    moreover have "splitUrl c = \<lparr>cleanUrl = c, params = Map.empty\<rparr>"
      using assms(1,2,3,7) True
      by (simp add: splitUrl_cases urlWithoutFragment_id Let_def)
    ultimately show ?thesis
      using True by simp
  next
    case False
    then have qn: "q \<noteq> []"
      by (simp add: q_def)
    then have lq: "\<not> isWhiteSpace (hd q)" "\<not> isWhiteSpace (last q)"
      using qf(3) by simp_all
    show ?thesis
    proof (cases "c = []")
      case True
      then have mq: "mergeUrl c ps = q"
        using m qn by simp
      have "nakedQueryTest q"
        using assms(6) True False mq by simp
      moreover have "trim q = q"
        using trim_id[OF qn lq] .
      ultimately have "splitUrl q = \<lparr>cleanUrl = [], params = extractParams q\<rparr>"
        using qf by (simp add: splitUrl_cases urlWithoutFragment_id Let_def)
      then show ?thesis
        using mq e True by simp
    next
      case cn: False
      define s where "s = c @ 0x3F # q"
      have ms: "mergeUrl c ps = s"
        using m qn cn assms(1) by (simp add: s_def)
      have "hd s = hd c" "last s = last q" "s \<noteq> []"
        using cn qn by (simp_all add: s_def)
      then have "trim s = s"
        using trim_id[of s] trim_fixed(1)[OF assms(3) cn] lq by simp
      moreover have "urlWithoutFragment s = s"
        using assms(2) qf(2) by (simp add: urlWithoutFragment_id s_def)
      moreover have "0x3F \<in> set s"
        by (simp add: s_def)
      ultimately have "splitUrl s = \<lparr>cleanUrl = c, params = extractParams q\<rparr>"
        using split_at_first[OF s_def assms(1)] by (simp add: splitUrl_cases Let_def)
      then show ?thesis
        using ms e by simp
    qed
  qed
qed

theorem split_merge_roundtrip_witness:
  "0x3F \<notin> set (str ''http://x.com/a'') \<and> 0x23 \<notin> set (str ''http://x.com/a'') \<and>
   trim (str ''http://x.com/a'') = str ''http://x.com/a'' \<and>
   distinct (map fst [(str ''utm_source'', str ''g o''), (str ''k'', [0xE9, 0x20AC, 0xD83D, 0xDE00])]) \<and>
   mergeUrl (str ''http://x.com/a'')
     [(str ''utm_source'', str ''g o''), (str ''k'', [0xE9, 0x20AC, 0xD83D, 0xDE00])] =
     str ''http://x.com/a?utm_source=g+o&k=%C3%A9%E2%82%AC%F0%9F%98%80'' \<and>
   splitUrl (mergeUrl (str ''http://x.com/a'')
     [(str ''utm_source'', str ''g o''), (str ''k'', [0xE9, 0x20AC, 0xD83D, 0xDE00])]) =
     \<lparr>cleanUrl = str ''http://x.com/a'',
      params = map_of [(str ''utm_source'', str ''g o''), (str ''k'', [0xE9, 0x20AC, 0xD83D, 0xDE00])]\<rparr>"
proof -
  have a: "0x3F \<notin> set (str ''http://x.com/a'')" "0x23 \<notin> set (str ''http://x.com/a'')"
    "trim (str ''http://x.com/a'') = str ''http://x.com/a''"
    by code_simp+
  have b: "distinct (map fst [(str ''utm_source'', str ''g o''),
                              (str ''k'', [0xE9, 0x20AC, 0xD83D, 0xDE00])])"
    by code_simp
  have c: "\<forall>p\<in>set [(str ''utm_source'', str ''g o''), (str ''k'', [0xE9, 0x20AC, 0xD83D, 0xDE00])].
             fst p \<noteq> [] \<and> fst p \<noteq> str ''__proto__'' \<and>
             usv_string (fst p) \<and> usv_string (snd p) \<and>
             \<not> (\<forall>x\<in>set (snd p). isWhiteSpace x)"
    by code_simp
  have d: "str ''http://x.com/a'' = [] \<and>
           [(str ''utm_source'', str ''g o''), (str ''k'', [0xE9, 0x20AC, 0xD83D, 0xDE00])] \<noteq> [] \<longrightarrow>
           nakedQueryTest (mergeUrl (str ''http://x.com/a'')
             [(str ''utm_source'', str ''g o''), (str ''k'', [0xE9, 0x20AC, 0xD83D, 0xDE00])])"
    by code_simp
  have e: "[(str ''utm_source'', str ''g o''), (str ''k'', [0xE9, 0x20AC, 0xD83D, 0xDE00])] = [] \<longrightarrow>
           \<not> nakedQueryTest (str ''http://x.com/a'')"
    by code_simp
  have m: "mergeUrl (str ''http://x.com/a'')
             [(str ''utm_source'', str ''g o''), (str ''k'', [0xE9, 0x20AC, 0xD83D, 0xDE00])] =
           str ''http://x.com/a?utm_source=g+o&k=%C3%A9%E2%82%AC%F0%9F%98%80''"
    by code_simp
  from split_merge_roundtrip[OF a b c d e] a b c m show ?thesis
    by blast
qed

text \<open>
  C1 as stated fails for a \<open>cleanUrl\<close> with a fragment: the merged string
  \<open>http://x.com/#top?a=1\<close> has its \<open>?\<close> inside the fragment, so the splitter finds
  no query and returns the whole string as \<open>cleanUrl\<close>, with no parameters.
\<close>

theorem split_merge_fragment_counterexample:
  "0x3F \<notin> set (str ''http://x.com/#top'') \<and> str ''1'' \<noteq> [] \<and> trim (str ''1'') \<noteq> [] \<and>
   mergeUrl (str ''http://x.com/#top'') [(str ''a'', str ''1'')] = str ''http://x.com/#top?a=1'' \<and>
   cleanUrl (splitUrl (mergeUrl (str ''http://x.com/#top'') [(str ''a'', str ''1'')])) =
     str ''http://x.com/#top?a=1'' \<and>
   params (splitUrl (mergeUrl (str ''http://x.com/#top'') [(str ''a'', str ''1'')])) (str ''a'') = None"
  by code_simp

section \<open>Facts about rounding\<close>

declare scale_up.simps [simp del] scale_down.simps [simp del]

text \<open>The quantum of a positive number puts its significand between \<open>2^52\<close> and \<open>2^53\<close>.\<close>

lemma scale_up_bound:
  "0 < q \<Longrightarrow> 0 < scale_up x q \<and> x < 9007199254740992 * scale_up x q"
proof (induction x q rule: scale_up.induct)
  case (1 x q)
  have u: "scale_up x q =
           (if 0 < q \<and> 9007199254740992 * q \<le> x then scale_up x (2 * q) else q)"
    by (rule scale_up.simps)
  show ?case
  proof (cases "0 < q \<and> 9007199254740992 * q \<le> x")
    case True
    have "0 < 2 * q"
      using "1.prems" by simp
    from "1.IH"[OF True this] show ?thesis
      unfolding u if_P[OF True] .
  next
    case False
    then show ?thesis
      unfolding u if_not_P[OF False] using "1.prems" by simp
  qed
qed

lemma scale_down_bound:
  "0 < x \<Longrightarrow> 0 < q \<Longrightarrow> x < 9007199254740992 * q \<Longrightarrow>
   4503599627370496 * scale_down x q \<le> x \<and> x < 9007199254740992 * scale_down x q"
proof (induction x q rule: scale_down.induct)
  case (1 x q)
  have u: "scale_down x q =
           (if 0 < x \<and> 0 < q \<and> x < 4503599627370496 * q then scale_down x (q / 2) else q)"
    by (rule scale_down.simps)
  show ?case
  proof (cases "0 < x \<and> 0 < q \<and> x < 4503599627370496 * q")
    case True
    have "0 < q / 2" "x < 9007199254740992 * (q / 2)"
      using True by simp_all
    from "1.IH"[OF True "1.prems"(1) this] show ?thesis
      unfolding u if_P[OF True] .
  next
    case False
    then show ?thesis
      unfolding u if_not_P[OF False] using "1.prems" by simp
  qed
qed

lemma quantum_bounds:
  assumes "0 < x"
  shows "4503599627370496 * quantum x \<le> x" and "x < 9007199254740992 * quantum x"
  using scale_down_bound[OF assms, of "scale_up x 1"] scale_up_bound[of 1 x]
  by (simp_all add: quantum_def)

text \<open>Rounding is exact on natural numbers below \<open>2^53\<close>.\<close>

lemma scale_down_pow2:
  "\<exists>j. q = 1 / 2 ^ j \<Longrightarrow> \<exists>j. scale_down x q = 1 / 2 ^ j"
proof (induction x q rule: scale_down.induct)
  case (1 x q)
  have u: "scale_down x q =
           (if 0 < x \<and> 0 < q \<and> x < 4503599627370496 * q then scale_down x (q / 2) else q)"
    by (rule scale_down.simps)
  show ?case
  proof (cases "0 < x \<and> 0 < q \<and> x < 4503599627370496 * q")
    case True
    from "1.prems" obtain j where "q = 1 / 2 ^ j" by blast
    then have "q / 2 = 1 / 2 ^ Suc j" by simp
    then have "\<exists>j. q / 2 = 1 / 2 ^ j" by blast
    from "1.IH"[OF True this] show ?thesis
      unfolding u if_P[OF True] .
  next
    case False
    show ?thesis
      unfolding u if_not_P[OF False] by (rule "1.prems")
  qed
qed

lemma round_even_of_int: "round_even (of_int k) = k"
  by (simp add: round_even_def)

lemma rnd_of_nat:
  assumes "n < 9007199254740992"
  shows "rnd (of_nat n) = of_nat n"
proof (cases "n = 0")
  case True
  then show ?thesis by (simp add: rnd_def)
next
  case False
  define x :: rat where "x = of_nat n"
  have x: "0 < x" "x < 9007199254740992"
    using False assms by (simp_all add: x_def)
  have "scale_up x 1 = 1"
    using x by (subst scale_up.simps) simp
  moreover have "\<exists>j. (1::rat) = 1 / 2 ^ j"
    by (rule exI[of _ 0]) simp
  ultimately obtain j where q: "quantum x = 1 / 2 ^ j"
    using scale_down_pow2[of 1 x] by (auto simp: quantum_def)
  have "x / quantum x = of_int (int n * 2 ^ j)"
    unfolding q by (simp add: x_def)
  then have "round_even (x / quantum x) = int n * 2 ^ j"
    by (simp only: round_even_of_int)
  then have "rnd x = of_int (int n * 2 ^ j) * quantum x"
    using x by (simp add: rnd_def Let_def)
  then have "rnd x = of_int (int n * 2 ^ j) * (1 / 2 ^ j)"
    unfolding q .
  then show ?thesis
    by (simp add: x_def)
qed

lemma fadd_of_nat:
  "a + b < 9007199254740992 \<Longrightarrow> fadd (of_nat a) (of_nat b) = of_nat (a + b)"
  using rnd_of_nat[of "a + b"] by (simp add: fadd_def)

text \<open>
  A code equation for \<open>rnd\<close> that returns a natural number below \<open>2^53\<close> at once.
\<close>

lemma rnd_code [code]:
  "rnd x =
     (if 0 \<le> x \<and> x < 9007199254740992 \<and> of_int \<lfloor>x\<rfloor> = x then x
      else if x = 0 then 0
      else (let q = quantum \<bar>x\<bar> in sgn x * of_int (round_even (\<bar>x\<bar> / q)) * q))"
proof (cases "0 \<le> x \<and> x < 9007199254740992 \<and> of_int \<lfloor>x\<rfloor> = x")
  case True
  then have "x = of_nat (nat \<lfloor>x\<rfloor>)" "nat \<lfloor>x\<rfloor> < 9007199254740992"
    by (auto simp: floor_less_iff)
  then have "rnd x = x"
    using rnd_of_nat[of "nat \<lfloor>x\<rfloor>"] by simp
  then show ?thesis
    unfolding if_P[OF True] .
next
  case False
  show ?thesis
    unfolding if_not_P[OF False] by (rule rnd_def)
qed

text \<open>The binary64 value of \<open>1/25\<close> is \<open>5764607523034235 / 2^57\<close>.\<close>

lemma rounding_example:
  "rnd (1 / 25) = 5764607523034235 / 144115188075855872"
  by code_simp

section \<open>The detector\<close>

lemma addIf_of_nat:
  "a + w < 9007199254740992 \<Longrightarrow>
   addIf c (of_nat w) (of_nat a) = of_nat (a + (if c then w else 0))"
  by (simp add: addIf_def fadd_of_nat)

lemma bonus_Cons:
  "sum_list (map snd (filter (\<lambda>(c, w). c l) ((p, v) # rs))) =
     (if p l then v else 0) + sum_list (map snd (filter (\<lambda>(c, w). c l) rs))"
  by simp

lemma nameScore_eq: "nameScore h = of_nat (header_bonus h)"
proof -
  define l where "l = toLowerCase h"
  define a1 :: nat where
    "a1 = (if l = str ''url'' \<or> l = str ''original_url'' \<or> l = str ''link'' then 25 else 0)"
  define a2 :: nat where "a2 = (if str_includes l (str ''utm'') then 20 else 0)"
  define a3 :: nat where "a3 = (if str_includes l (str ''landing_page'') then 15 else 0)"
  define a4 :: nat where "a4 = (if str_includes l (str ''destination'') then 12 else 0)"
  define a5 :: nat where "a5 = (if str_includes l (str ''campaign'') then 10 else 0)"
  define a6 :: nat where
    "a6 = (if str_includes l (str ''source'') \<or> str_includes l (str ''medium'') then 8 else 0)"
  define a7 :: nat where
    "a7 = (if l = str ''g'' \<or> l = str ''gclid'' \<or> l = str ''click_id'' then 5 else 0)"
  have b: "a1 \<le> 25" "a2 \<le> 20" "a3 \<le> 15" "a4 \<le> 12" "a5 \<le> 10" "a6 \<le> 8" "a7 \<le> 5"
    by (simp_all add: a1_def a2_def a3_def a4_def a5_def a6_def a7_def)
  have s1: "addIf (l = str ''url'' \<or> l = str ''original_url'' \<or> l = str ''link'') 25 0 =
            of_nat a1"
    using addIf_of_nat[of 0 25] by (simp add: a1_def)
  have s2: "addIf (str_includes l (str ''utm'')) 20 (of_nat a1) = of_nat (a1 + a2)"
    using addIf_of_nat[of a1 20] b by (simp add: a2_def)
  have s3: "addIf (str_includes l (str ''landing_page'')) 15 (of_nat (a1 + a2)) =
            of_nat (a1 + a2 + a3)"
    using addIf_of_nat[of "a1 + a2" 15] b by (simp add: a3_def)
  have s4: "addIf (str_includes l (str ''destination'')) 12 (of_nat (a1 + a2 + a3)) =
            of_nat (a1 + a2 + a3 + a4)"
    using addIf_of_nat[of "a1 + a2 + a3" 12] b by (simp add: a4_def)
  have s5: "addIf (str_includes l (str ''campaign'')) 10 (of_nat (a1 + a2 + a3 + a4)) =
            of_nat (a1 + a2 + a3 + a4 + a5)"
    using addIf_of_nat[of "a1 + a2 + a3 + a4" 10] b by (simp add: a5_def)
  have s6: "addIf (str_includes l (str ''source'') \<or> str_includes l (str ''medium'')) 8
              (of_nat (a1 + a2 + a3 + a4 + a5)) = of_nat (a1 + a2 + a3 + a4 + a5 + a6)"
    using addIf_of_nat[of "a1 + a2 + a3 + a4 + a5" 8] b by (simp add: a6_def)
  have s7: "addIf (l = str ''g'' \<or> l = str ''gclid'' \<or> l = str ''click_id'') 5
              (of_nat (a1 + a2 + a3 + a4 + a5 + a6)) =
            of_nat (a1 + a2 + a3 + a4 + a5 + a6 + a7)"
    using addIf_of_nat[of "a1 + a2 + a3 + a4 + a5 + a6" 5] b by (simp add: a7_def)
  have "nameScore h = of_nat (a1 + a2 + a3 + a4 + a5 + a6 + a7)"
    unfolding nameScore_def Let_def l_def[symmetric] s1 s2 s3 s4 s5 s6 s7 ..
  moreover have "header_bonus h = a1 + a2 + a3 + a4 + a5 + a6 + a7"
    unfolding header_bonus_def header_rules_def l_def[symmetric] bonus_Cons
    by (simp add: a1_def a2_def a3_def a4_def a5_def a6_def a7_def)
  ultimately show ?thesis
    by simp
qed

lemma countRow_foldl:
  "foldl (countRow h) cs sample =
     \<lparr>utmMatchCount = utmMatchCount cs + matchCount isUtmMatch sample h,
      urlMatchCount = urlMatchCount cs + matchCount isUrlMatch sample h,
      trackingIdMatchCount = trackingIdMatchCount cs + matchCount isTrackingIdMatch sample h,
      queryStringMatchCount = queryStringMatchCount cs + matchCount isQueryStringMatch sample h,
      ampersandMatchCount = ampersandMatchCount cs + matchCount isAmpersandMatch sample h\<rparr>"
proof (induction sample arbitrary: cs)
  case Nil
  then show ?case by (simp add: matchCount_def)
next
  case (Cons r sample)
  show ?case
    unfolding foldl_Cons Cons.IH
    by (simp add: countRow_def Let_def matchCount_def)
qed

text \<open>
  C6. For a non-empty table, the score the detector computes for a header is the sum of
  the points of every header-name rule that matches, plus the five pattern counts, each
  divided by the sample size (the number of sampled rows, not the number of non-empty
  values) and multiplied by its weight 50, 30, 20, 10 or 25.
\<close>

theorem column_score_formula:
  assumes "data \<noteq> []" and "sample = take 25 data"
  shows "columnScore (min (length data) 25) (take (min (length data) 25) data) h =
           spec_score sample h"
proof -
  have "take (min (length data) 25) data = sample" "min (length data) 25 = length sample"
    using assms by (simp_all add: min_def)
  then show ?thesis
    by (simp add: columnScore_def spec_score_def rate_def Let_def nameScore_eq countRow_foldl)
qed

theorem column_score_formula_witness:
  "[sample_row, sample_row, sample_row] \<noteq> [] \<and>
   [sample_row, sample_row, sample_row] = take 25 [sample_row, sample_row, sample_row] \<and>
   columnScore (min (length [sample_row, sample_row, sample_row]) 25)
     (take (min (length [sample_row, sample_row, sample_row]) 25)
        [sample_row, sample_row, sample_row]) (str ''campaign_url'') =
   spec_score [sample_row, sample_row, sample_row] (str ''campaign_url'') \<and>
   spec_score [sample_row, sample_row, sample_row] (str ''campaign_url'') = 125"
proof -
  have a: "[sample_row, sample_row, sample_row] \<noteq> []"
    by simp
  have b: "[sample_row, sample_row, sample_row] = take 25 [sample_row, sample_row, sample_row]"
    by simp
  have c: "spec_score [sample_row, sample_row, sample_row] (str ''campaign_url'') = 125"
    by code_simp
  from column_score_formula[OF a b] a b c show ?thesis
    by blast
qed

lemma trackBest_foldl:
  assumes "foldl (trackBest n sample) (b0, m0) hs = (b, m)"
  shows "(b = b0 \<and> m = m0 \<and> (\<forall>h\<in>set hs. columnScore n sample h \<le> m0)) \<or>
         (\<exists>pre post. hs = pre @ b # post \<and> columnScore n sample b = m \<and> m0 < m \<and>
            (\<forall>h\<in>set pre. columnScore n sample h < m) \<and>
            (\<forall>h\<in>set post. columnScore n sample h \<le> m))"
  using assms
proof (induction hs arbitrary: b m rule: rev_induct)
  case Nil
  then show ?case by simp
next
  case (snoc h hs)
  obtain b1 m1 where f: "foldl (trackBest n sample) (b0, m0) hs = (b1, m1)"
    by (cases "foldl (trackBest n sample) (b0, m0) hs")
  note ih = snoc.IH[OF f]
  have s: "trackBest n sample (b1, m1) h = (b, m)"
    using snoc.prems by (simp add: f)
  show ?case
  proof (cases "m1 < columnScore n sample h")
    case True
    then have bm: "b = h" "m = columnScore n sample h"
      using s by (auto simp: trackBest_def Let_def)
    have "\<forall>k\<in>set hs. columnScore n sample k < m"
      using ih True bm by fastforce
    moreover have "m0 < m"
      using ih True bm by auto
    moreover have "hs @ [h] = hs @ b # []"
      using bm by simp
    moreover have "\<forall>k\<in>set []. columnScore n sample k \<le> m"
      by simp
    ultimately show ?thesis
      using bm by blast
  next
    case False
    then have bm: "b = b1" "m = m1"
      using s by (auto simp: trackBest_def Let_def)
    from ih show ?thesis
    proof
      assume "b1 = b0 \<and> m1 = m0 \<and> (\<forall>h\<in>set hs. columnScore n sample h \<le> m0)"
      then show ?thesis using False bm by auto
    next
      assume "\<exists>pre post. hs = pre @ b1 # post \<and> columnScore n sample b1 = m1 \<and> m0 < m1 \<and>
            (\<forall>h\<in>set pre. columnScore n sample h < m1) \<and>
            (\<forall>h\<in>set post. columnScore n sample h \<le> m1)"
      then obtain pre post where p: "hs = pre @ b1 # post" "columnScore n sample b1 = m1" "m0 < m1"
        "\<forall>h\<in>set pre. columnScore n sample h < m1" "\<forall>h\<in>set post. columnScore n sample h \<le> m1"
        by blast
      have "hs @ [h] = pre @ b # (post @ [h])"
        using p bm by simp
      moreover have "\<forall>k\<in>set (post @ [h]). columnScore n sample k \<le> m"
        using p False bm by auto
      ultimately show ?thesis
        using p bm by blast
    qed
  qed
qed

text \<open>
  C7. On an empty table, and without headers, the detector returns the empty string.
  Otherwise, with \<open>b\<close>
  the first header of maximal score (every header before it scores strictly less, every
  header after it at most as much), it returns \<open>b\<close> if the score of \<open>b\<close> exceeds 5
  and the empty string if not.
\<close>

theorem detect_selection:
  assumes "sc = columnScore (min (length data) 25) (take (min (length data) 25) data)"
  shows "detectBestUrlColumn headers [] = [] \<and>
         detectBestUrlColumn [] data = [] \<and>
         (data \<noteq> [] \<and> headers \<noteq> [] \<longrightarrow>
            (\<exists>pre b post. headers = pre @ b # post \<and>
               (\<forall>h\<in>set pre. sc h < sc b) \<and> (\<forall>h\<in>set post. sc h \<le> sc b) \<and>
               detectBestUrlColumn headers data = (if 5 < sc b then b else [])))"
proof -
  have "\<exists>pre b post. headers = pre @ b # post \<and>
               (\<forall>h\<in>set pre. sc h < sc b) \<and> (\<forall>h\<in>set post. sc h \<le> sc b) \<and>
               detectBestUrlColumn headers data = (if 5 < sc b then b else [])"
    if d: "data \<noteq> []" and hs: "headers \<noteq> []"
  proof -
    define n where "n = min (length data) 25"
    obtain b m where f: "foldl (trackBest n (take n data)) ([], - 1) headers = (b, m)"
      by (cases "foldl (trackBest n (take n data)) ([], - 1) headers")
    have r: "detectBestUrlColumn headers data = (if 5 < m then b else [])"
      using d f by (simp add: detectBestUrlColumn_def n_def Let_def)
    have sc: "sc = columnScore n (take n data)"
      by (simp add: assms n_def)
    from trackBest_foldl[OF f] show ?thesis
    proof
      assume a: "b = [] \<and> m = - 1 \<and> (\<forall>h\<in>set headers. columnScore n (take n data) h \<le> - 1)"
      obtain h0 rest where hr: "headers = h0 # rest"
        using hs by (cases headers) auto
      have "\<exists>pre b post. headers = pre @ b # post \<and>
               (\<forall>h\<in>set pre. sc h < sc b) \<and> (\<forall>h\<in>set post. sc h \<le> sc b)"
        using hs
      proof (induction headers rule: rev_induct)
        case Nil
        then show ?case by simp
      next
        case (snoc x xs)
        show ?case
        proof (cases "xs = []")
          case True
          then have "[x] = [] @ x # []" by simp
          then show ?thesis using True by fastforce
        next
          case False
          then obtain pre b post where q: "xs = pre @ b # post"
            "\<forall>h\<in>set pre. sc h < sc b" "\<forall>h\<in>set post. sc h \<le> sc b"
            using snoc.IH by blast
          show ?thesis
          proof (cases "sc b < sc x")
            case True
            have "\<forall>h\<in>set xs. sc h < sc x"
              using q True by fastforce
            then show ?thesis by (metis append_Nil2 empty_iff list.set(1) append.assoc append_Cons)
          next
            case False
            have "xs @ [x] = pre @ b # (post @ [x])" using q by simp
            moreover have "\<forall>h\<in>set (post @ [x]). sc h \<le> sc b" using q False by auto
            ultimately show ?thesis using q by blast
          qed
        qed
      qed
      then obtain pre b' post where q: "headers = pre @ b' # post"
        "\<forall>h\<in>set pre. sc h < sc b'" "\<forall>h\<in>set post. sc h \<le> sc b'"
        by blast
      have "sc b' \<le> - 1"
        using a q sc by auto
      then have "\<not> 5 < sc b'" "\<not> 5 < m"
        using a by auto
      then show ?thesis
        using q r by auto
    next
      assume "\<exists>pre post. headers = pre @ b # post \<and> columnScore n (take n data) b = m \<and> - 1 < m \<and>
            (\<forall>h\<in>set pre. columnScore n (take n data) h < m) \<and>
            (\<forall>h\<in>set post. columnScore n (take n data) h \<le> m)"
      then show ?thesis
        using r sc by blast
    qed
  qed
  moreover have "detectBestUrlColumn headers [] = []" "detectBestUrlColumn [] data = []"
    by (simp_all add: detectBestUrlColumn_def)
  ultimately show ?thesis
    by blast
qed

theorem detect_selection_witness:
  "[sample_row] \<noteq> [] \<and> [str ''campaign_url'', str ''name''] \<noteq> [] \<and>
   detectBestUrlColumn [str ''campaign_url'', str ''name''] [] = [] \<and>
   (\<exists>pre b post. [str ''campaign_url'', str ''name''] = pre @ b # post \<and>
      (\<forall>h\<in>set pre. columnScore 1 [sample_row] h < columnScore 1 [sample_row] b) \<and>
      (\<forall>h\<in>set post. columnScore 1 [sample_row] h \<le> columnScore 1 [sample_row] b) \<and>
      detectBestUrlColumn [str ''campaign_url'', str ''name''] [sample_row] =
        (if 5 < columnScore 1 [sample_row] b then b else [])) \<and>
   detectBestUrlColumn [str ''campaign_url'', str ''name''] [sample_row] = str ''campaign_url''"
proof -
  have s: "columnScore 1 [sample_row] =
           columnScore (min (length [sample_row]) 25) (take (min (length [sample_row]) 25) [sample_row])"
    by simp
  have a: "[sample_row] \<noteq> []" "[str ''campaign_url'', str ''name''] \<noteq> []"
    by simp_all
  have c: "detectBestUrlColumn [str ''campaign_url'', str ''name''] [sample_row] = str ''campaign_url''"
    by code_simp
  from detect_selection[OF s, of "[str ''campaign_url'', str ''name'']"] a c show ?thesis
    by blast
qed

text \<open>
  C8. Two tables of more than 25 rows with the same first 25 rows give the same result.
\<close>

theorem detect_sampling:
  assumes "25 < length rows1" and "25 < length rows2" and "take 25 rows1 = take 25 rows2"
  shows "detectBestUrlColumn headers rows1 = detectBestUrlColumn headers rows2"
proof -
  have "min (length rows1) 25 = 25" "min (length rows2) 25 = 25" "rows1 \<noteq> []" "rows2 \<noteq> []"
    using assms by auto
  then show ?thesis
    using assms(3) by (simp add: detectBestUrlColumn_def)
qed

theorem detect_sampling_witness:
  "25 < length (replicate 26 sample_row) \<and>
   25 < length (replicate 25 sample_row @ [Map.empty, Map.empty]) \<and>
   take 25 (replicate 26 sample_row) = take 25 (replicate 25 sample_row @ [Map.empty, Map.empty]) \<and>
   detectBestUrlColumn [str ''campaign_url'', str ''name''] (replicate 26 sample_row) =
   detectBestUrlColumn [str ''campaign_url'', str ''name'']
     (replicate 25 sample_row @ [Map.empty, Map.empty])"
proof -
  have a: "25 < length (replicate 26 sample_row)"
    by simp
  have b: "25 < length (replicate 25 sample_row @ [Map.empty, Map.empty])"
    by simp
  have c: "take 25 (replicate 26 sample_row) =
           take 25 (replicate 25 sample_row @ [Map.empty, Map.empty])"
    by simp
  from detect_sampling[OF a b c] a b c show ?thesis
    by blast
qed

lemma trackBest_in:
  "fst (foldl (trackBest n sample) st hs) \<in> insert (fst st) (set hs)"
proof (induction hs rule: rev_induct)
  case Nil
  then show ?case by simp
next
  case (snoc h hs)
  then show ?case by (auto simp: trackBest_def Let_def)
qed

text \<open>
  C10. The result is the empty string or one of the given headers; without headers it is
  the empty string.
\<close>

theorem detect_result_is_header:
  "detectBestUrlColumn headers data \<in> insert [] (set headers) \<and>
   detectBestUrlColumn [] data = []"
proof -
  have "detectBestUrlColumn hs data \<in> insert [] (set hs)" for hs
    using trackBest_in[of "min (length data) 25" "take (min (length data) 25) data" "([], - 1)" hs]
    by (auto simp: detectBestUrlColumn_def Let_def split: prod.splits)
  from this[of headers] this[of "[]"] show ?thesis
    by simp
qed

theorem detect_result_is_header_witness:
  "detectBestUrlColumn [str ''campaign_url'', str ''name''] [sample_row]
     \<in> insert [] (set [str ''campaign_url'', str ''name'']) \<and>
   detectBestUrlColumn [] [sample_row] = []"
  using detect_result_is_header[of "[str ''campaign_url'', str ''name'']" "[sample_row]"]
        detect_result_is_header[of "[]" "[sample_row]"]
  by blast

end
